theory Spec2Isabelle
  imports Main "HOL-Library.Word" "HOL-Library.Signed_Division"
begin

section \<open>Go values: panics, runes and strings\<close>

text \<open>
  A run-time panic of the Go program is a value of the type \<open>panic\<close>; a function that can
  panic returns \<open>panic + 'a\<close>, with \<open>Inl\<close> for the panic.
\<close>

datatype panic = IndexOutOfRange | DivideByZero | TypeAssertion

text \<open>
  A Go \<open>string\<close> is a sequence of bytes, here a \<open>string\<close> (a list of 8-bit characters).
  A \<open>rune\<close> is a code point (Go's \<open>int32\<close>), here an \<open>int\<close>. Go's \<open>int\<close> (row and column
  indices, lengths) has 64 bits; it is an \<open>int\<close> here, and where the program computes with a
  value that can leave the 64-bit range (\<open>col++\<close> and \<open>endRow-1\<close> in \<open>SetStyleRange\<close>,
  \<open>cols * rows * 2\<close> in \<open>ensureGrid\<close>) the wrap-around is written out by \<open>int64\<close>. Lengths and
  the indices below a length are far below \<open>2 ^ 63\<close>.
\<close>

definition MaxInt :: int where
  "MaxInt = 2 ^ 63 - 1"

definition MinInt :: int where
  "MinInt = - (2 ^ 63)"

definition int64 :: "int \<Rightarrow> int" where
  "int64 k = (k + 2 ^ 63) mod 2 ^ 64 - 2 ^ 63"

lemma int64_id: "MinInt \<le> k \<Longrightarrow> k \<le> MaxInt \<Longrightarrow> int64 k = k"
  by (simp add: int64_def MinInt_def MaxInt_def)


type_synonym rune = int

definition RuneError :: rune where
  "RuneError = 65533"

text \<open>
  \<open>decode_rune\<close> is the decoding step of \<open>for _, r := range s\<close> (\<open>utf8.DecodeRuneInString\<close>):
  the first code point of \<open>s\<close> and its width in bytes, and \<open>(RuneError, 1)\<close> for an invalid
  or cut-off sequence. The masks and shifts of the Go code are written as \<open>mod\<close> and
  multiplication: \<open>s0 & 0x1F\<close> is \<open>s0 mod 32\<close>, \<open><< 6\<close> is \<open>* 64\<close>, and the bit fields never
  overlap.
\<close>

fun decode_rune :: "string \<Rightarrow> rune \<times> nat" where
  "decode_rune [] = (RuneError, 0)"
| "decode_rune (c0 # rest) =
    (let s0 = (of_char c0 :: nat) in
     if s0 < 128 then (int s0, 1)
     else if s0 < 194 \<or> 244 < s0 then (RuneError, 1)
     else
       let sz = (if s0 < 224 then 2 else if s0 < 240 then 3 else (4::nat));
           lo = (if s0 = 224 then 160 else if s0 = 240 then 144 else (128::nat));
           hi = (if s0 = 237 then 159 else if s0 = 244 then 143 else (191::nat))
       in
       if Suc (length rest) < sz then (RuneError, 1)
       else
         let s1 = (of_char (rest ! 0) :: nat) in
         if s1 < lo \<or> hi < s1 then (RuneError, 1)
         else if sz \<le> 2 then (int (s0 mod 32 * 64 + s1 mod 64), 2)
         else
           let s2 = (of_char (rest ! 1) :: nat) in
           if s2 < 128 \<or> 191 < s2 then (RuneError, 1)
           else if sz \<le> 3 then (int (s0 mod 16 * 4096 + s1 mod 64 * 64 + s2 mod 64), 3)
           else
             let s3 = (of_char (rest ! 2) :: nat) in
             if s3 < 128 \<or> 191 < s3 then (RuneError, 1)
             else (int (s0 mod 8 * 262144 + s1 mod 64 * 4096 + s2 mod 64 * 64 + s3 mod 64), 4))"

lemma decode_rune_width: "s \<noteq> [] \<Longrightarrow> 0 < snd (decode_rune s) \<and> snd (decode_rune s) \<le> 4"
  by (cases s) (simp_all add: Let_def)

text \<open>\<open>range_runes s\<close> is the sequence of runes the loop \<open>for _, r := range s\<close> visits.\<close>

function range_runes :: "string \<Rightarrow> rune list" where
  "range_runes s =
    (if s = [] then []
     else fst (decode_rune s) # range_runes (drop (snd (decode_rune s)) s))"
  by pat_completeness auto
termination
  by (relation "measure length") (use decode_rune_width in auto)

declare range_runes.simps [simp del]

lemma range_runes_Nil [simp]: "range_runes [] = []"
  by (simp add: range_runes.simps)

lemma range_runes_Cons:
  "range_runes (c # cs) =
    fst (decode_rune (c # cs)) # range_runes (drop (snd (decode_rune (c # cs))) (c # cs))"
  by (subst range_runes.simps) simp

text \<open>
  \<open>encode_rune r\<close> is the conversion \<open>string(r)\<close> (\<open>utf8.EncodeRune\<close>): the UTF-8 bytes of
  \<open>r\<close>, and those of \<open>RuneError\<close> when \<open>r\<close> is negative, beyond \<open>0x10FFFF\<close> or a surrogate.
\<close>

definition encode_rune :: "rune \<Rightarrow> string" where
  "encode_rune r =
    (let n = nat r in
     if 0 \<le> r \<and> r \<le> 127 then [char_of n]
     else if 0 \<le> r \<and> r \<le> 2047 then [char_of (192 + n div 64), char_of (128 + n mod 64)]
     else if r < 0 \<or> 1114111 < r \<or> (55296 \<le> r \<and> r \<le> 57343)
       then [char_of (239::nat), char_of (191::nat), char_of (189::nat)]
     else if r \<le> 65535
       then [char_of (224 + n div 4096), char_of (128 + n div 64 mod 64), char_of (128 + n mod 64)]
     else [char_of (240 + n div 262144), char_of (128 + n div 4096 mod 64),
           char_of (128 + n div 64 mod 64), char_of (128 + n mod 64)])"

text \<open>\<open>Split s\<close> is \<open>strings.Split(s, "\n")\<close>: the pieces of \<open>s\<close> between its newline bytes.\<close>

fun Split :: "string \<Rightarrow> string list" where
  "Split [] = [[]]"
| "Split (c # cs) =
    (if c = CHR 0x0A then [] # Split cs
     else (case Split cs of [] \<Rightarrow> [[c]] | r # rs \<Rightarrow> (c # r) # rs))"

section \<open>The text advance engine (package painter)\<close>

text \<open>
  \<open>fixed.Int26_6\<close> is a signed 32-bit fixed-point number: a \<open>32 word\<close>, whose \<open>+\<close> and \<open>*\<close>
  wrap around as Go's do. Go's division of two \<open>int32\<close> truncates towards zero, and it is
  only called with a divisor that is not zero (the caller has panicked otherwise).
\<close>

type_synonym Int26_6 = "32 word"

definition div32 :: "Int26_6 \<Rightarrow> Int26_6 \<Rightarrow> Int26_6" where
  "div32 a b = word_of_int (sint a sdiv sint b)"

text \<open>
  \<open>font.Face\<close> is an interface outside the sources; the three methods the drawer calls are
  the fields of a record. \<open>Glyph dot c\<close> returns the glyph's image (the draw rectangle, the
  mask and its origin, of a type \<open>'g\<close>) and its advance, or \<open>None\<close> where Go returns
  \<open>ok = false\<close>; \<open>GlyphAdvance c\<close> the advance alone.
\<close>

record 'g font_Face =
  Glyph :: "Int26_6 \<times> Int26_6 \<Rightarrow> rune \<Rightarrow> ('g \<times> Int26_6) option"
  GlyphAdvance :: "rune \<Rightarrow> Int26_6 option"
  Kern :: "rune \<Rightarrow> rune \<Rightarrow> Int26_6"

text \<open>
  The drawer: the destination image \<open>Dst\<close> is the list of glyph images composited onto it
  so far (the calls of \<open>draw.DrawMask\<close>, in order), \<open>Dot\<close> the pen position.
\<close>

record 'g Drawer =
  Dst :: "'g list"
  Face :: "'g font_Face"
  Dot :: "Int26_6 \<times> Int26_6"

text \<open>
  \<open>tabStop f tabWidth x\<close>: the parameter \<open>tabWidth\<close> is the value of
  \<open>fixed.Int26_6(tabWidth)\<close>, the theme's tab-width setting (the theme is outside the
  sources) after its conversion to \<open>Int26_6\<close>. The integer quotient passes through
  \<open>float64\<close> and \<open>math.Modf\<close> unchanged (every \<open>int32\<close> is a \<open>float64\<close>). A tab cell of width
  zero makes the integer division panic. The rune of a space is 32.
\<close>

definition tabStop :: "'g font_Face \<Rightarrow> Int26_6 \<Rightarrow> Int26_6 \<Rightarrow> panic + Int26_6" where
  "tabStop f tabWidth x =
    (case GlyphAdvance f 32 of
       None \<Rightarrow> Inr x
     | Some spacew \<Rightarrow>
         let tabw = spacew * tabWidth in
         if tabw = 0 then Inl DivideByZero
         else Inr (tabw * div32 (x + tabw) tabw))"

text \<open>
  The loop of \<open>MeasureString\<close> over the runes of \<open>s\<close>, with its two variables \<open>prevC\<close> and
  \<open>advance\<close>. The rune of a tab is 9. The \<open>continue\<close> of a missing glyph skips
  \<open>prevC = c\<close>, after the kerning has been added.
\<close>

fun MeasureString_loop ::
  "'g font_Face \<Rightarrow> Int26_6 \<Rightarrow> rune list \<Rightarrow> rune \<Rightarrow> Int26_6 \<Rightarrow> panic + Int26_6" where
  "MeasureString_loop f tabWidth [] prevC advance = Inr advance"
| "MeasureString_loop f tabWidth (c # cs) prevC advance =
    (let advance1 = (if 0 \<le> prevC then advance + Kern f prevC c else advance) in
     if c = 9 then
       (case tabStop f tabWidth advance1 of
          Inl e \<Rightarrow> Inl e
        | Inr advance2 \<Rightarrow> MeasureString_loop f tabWidth cs c advance2)
     else
       (case GlyphAdvance f c of
          None \<Rightarrow> MeasureString_loop f tabWidth cs prevC advance1
        | Some a \<Rightarrow> MeasureString_loop f tabWidth cs c (advance1 + a)))"

definition MeasureString :: "'g font_Face \<Rightarrow> Int26_6 \<Rightarrow> string \<Rightarrow> panic + Int26_6" where
  "MeasureString f tabWidth s = MeasureString_loop f tabWidth (range_runes s) (- 1) 0"

text \<open>The loop of \<open>DrawString\<close>, on the drawer.\<close>

fun DrawString_loop ::
  "Int26_6 \<Rightarrow> rune list \<Rightarrow> rune \<Rightarrow> 'g Drawer \<Rightarrow> panic + 'g Drawer" where
  "DrawString_loop tabWidth [] prevC d = Inr d"
| "DrawString_loop tabWidth (c # cs) prevC d =
    (let d1 = (if 0 \<le> prevC
               then d\<lparr>Dot := (fst (Dot d) + Kern (Face d) prevC c, snd (Dot d))\<rparr>
               else d) in
     if c = 9 then
       (case tabStop (Face d1) tabWidth (fst (Dot d1)) of
          Inl e \<Rightarrow> Inl e
        | Inr x \<Rightarrow> DrawString_loop tabWidth cs c (d1\<lparr>Dot := (x, snd (Dot d1))\<rparr>))
     else
       (case Glyph (Face d1) (Dot d1) c of
          None \<Rightarrow> DrawString_loop tabWidth cs prevC d1
        | Some (g, a) \<Rightarrow>
            DrawString_loop tabWidth cs c
              (d1\<lparr>Dst := Dst d1 @ [g], Dot := (fst (Dot d1) + a, snd (Dot d1))\<rparr>)))"

definition DrawString :: "Int26_6 \<Rightarrow> 'g Drawer \<Rightarrow> string \<Rightarrow> panic + 'g Drawer" where
  "DrawString tabWidth d s = DrawString_loop tabWidth (range_runes s) (- 1) d"

section \<open>The text grid buffer (package widget)\<close>

text \<open>
  A colour is \<open>color.Transparent\<close>, \<open>color.White\<close>, one of the two colours the theme hands out
  (\<open>theme.TextColor()\<close> and \<open>theme.ButtonColor()\<close>, outside the sources and kept symbolic) or
  any other value.
\<close>

datatype color = Transparent | White | ThemeTextColor | ThemeButtonColor | RGBA nat nat nat nat

text \<open>
  The interface \<open>TextGridStyle\<close> is known by what its two methods return, a colour or \<open>nil\<close>
  each, so an implementation is a \<open>CustomTextGridStyle\<close>; a value of the interface type is
  \<open>None\<close> (Go's \<open>nil\<close>) or such a style.
\<close>

record CustomTextGridStyle =
  FGColor :: "color option"
  BGColor :: "color option"

definition TextColor :: "CustomTextGridStyle \<Rightarrow> color option" where
  "TextColor c = FGColor c"

definition BackgroundColor :: "CustomTextGridStyle \<Rightarrow> color option" where
  "BackgroundColor c = BGColor c"

type_synonym TextGridStyle = "CustomTextGridStyle option"

definition TextGridStyleDefault :: TextGridStyle where
  "TextGridStyleDefault = Some \<lparr>FGColor = None, BGColor = None\<rparr>"

definition TextGridStyleWhitespace :: TextGridStyle where
  "TextGridStyleWhitespace = Some \<lparr>FGColor = Some ThemeButtonColor, BGColor = None\<rparr>"

record TextGridCell =
  Rune :: rune
  Style :: TextGridStyle

text \<open>
  The buffer \<open>Content\<close> is a slice of rows, each a slice of cells. The rows are values here:
  no two rows of a buffer share their cells, as is the case for every buffer that \<open>SetText\<close>
  and \<open>SetStyle\<close> build. The embedded \<open>BaseWidget\<close> is outside the sources; its \<open>Refresh\<close>,
  which \<open>SetText\<close> and \<open>SetRow\<close> call last, hands over to the renderer's \<open>Refresh\<close> below and
  does not touch the buffer.
\<close>

record TextGrid =
  Content :: "TextGridCell list list"
  LineNumbers :: bool
  Whitespace :: bool

definition NewTextGrid :: TextGrid where
  "NewTextGrid = \<lparr>Content = [], LineNumbers = False, Whitespace = False\<rparr>"

definition SetText :: "TextGrid \<Rightarrow> string \<Rightarrow> TextGrid" where
  "SetText t s =
    t\<lparr>Content :=
        map (\<lambda>runes. map (\<lambda>r. \<lparr>Rune = r, Style = None\<rparr>) (range_runes runes)) (Split s)\<rparr>"

text \<open>The loop of \<open>Text\<close>: a row is followed by a newline unless it is the last one.\<close>

fun Text_rows :: "TextGridCell list list \<Rightarrow> string" where
  "Text_rows [] = []"
| "Text_rows (row # rest) =
    concat (map (\<lambda>r. encode_rune (Rune r)) row) @ (if rest \<noteq> [] then [CHR 0x0A] else []) @
    Text_rows rest"

definition Text :: "TextGrid \<Rightarrow> string" where
  "Text t = Text_rows (Content t)"

definition Row :: "TextGrid \<Rightarrow> int \<Rightarrow> TextGridCell list" where
  "Row t row = (if row < 0 \<or> int (length (Content t)) \<le> row then [] else Content t ! nat row)"

text \<open>The loop \<open>for len(t.Content) <= row { t.Content = append(t.Content, []TextGridCell{}) }\<close>.\<close>
function append_rows :: "TextGridCell list list \<Rightarrow> int \<Rightarrow> TextGridCell list list" where
  "append_rows content row =
    (if int (length content) \<le> row then append_rows (content @ [[]]) row else content)"
  by pat_completeness auto
termination
  by (relation "measure (\<lambda>(content, row). nat (row + 1 - int (length content)))") auto

declare append_rows.simps [simp del]

text \<open>The loop \<open>for len(content) <= col { content = append(content, TextGridCell{}) }\<close>.\<close>

function append_cells :: "TextGridCell list \<Rightarrow> int \<Rightarrow> TextGridCell list" where
  "append_cells content col =
    (if int (length content) \<le> col
     then append_cells (content @ [\<lparr>Rune = 0, Style = None\<rparr>]) col else content)"
  by pat_completeness auto
termination
  by (relation "measure (\<lambda>(content, col). nat (col + 1 - int (length content)))") auto

declare append_cells.simps [simp del]


text \<open>
  \<open>SetStyle\<close>: \<open>content\<close> is a local copy of the slice header of the row. When the column
  is within the row, the write \<open>content[col].Style = style\<close> goes to the cells the row shares
  with \<open>content\<close>. When it is not, \<open>append\<close> gives \<open>content\<close> cells that are not within the
  length of \<open>t.Content[row]\<close>, the style is written to one of them (\<open>content2\<close>), and
  \<open>content\<close> is never stored back: the row of the buffer stays as it was.
\<close>

definition SetStyle :: "TextGrid \<Rightarrow> int \<Rightarrow> int \<Rightarrow> TextGridStyle \<Rightarrow> TextGrid" where
  "SetStyle t row col style =
    (if row < 0 \<or> col < 0 then t
     else
       let rows1 = append_rows (Content t) row;
           content = rows1 ! nat row;
           content1 = append_cells content col;
           content2 = content1[nat col := (content1 ! nat col)\<lparr>Style := style\<rparr>]
       in if int (length content) \<le> col then t\<lparr>Content := rows1\<rparr>
          else t\<lparr>Content := rows1[nat row := content2]\<rparr>)"

lemma append_rows_eq:
  "append_rows content row = content @ replicate (nat (row + 1) - length content) []"
proof (induction content row rule: append_rows.induct)
  case (1 content row)
  show ?case
  proof (cases "int (length content) \<le> row")
    case True
    then have "nat (row + 1) - length content = Suc (nat (row + 1) - length (content @ [[]]))"
      by auto
    then show ?thesis using True "1.IH"
      by (subst append_rows.simps) (simp add: replicate_app_Cons_same)
  next
    case False
    then show ?thesis by (subst append_rows.simps) simp
  qed
qed

lemma append_cells_eq:
  "append_cells content col =
    content @ replicate (nat (col + 1) - length content) \<lparr>Rune = 0, Style = None\<rparr>"
proof (induction content col rule: append_cells.induct)
  case (1 content col)
  show ?case
  proof (cases "int (length content) \<le> col")
    case True
    then have "nat (col + 1) - length content = Suc (nat (col + 1) - length (content @ [\<lparr>Rune = 0, Style = None\<rparr>]))"
      by auto
    then show ?thesis using True "1.IH"
      by (subst append_cells.simps) (simp add: replicate_app_Cons_same)
  next
    case False
    then show ?thesis by (subst append_cells.simps) simp
  qed
qed

lemma length_append_rows: "length content \<le> length (append_rows content row)"
  by (simp add: append_rows_eq)

lemma SetStyle_row_length:
  "r < length (Content t) \<Longrightarrow>
    length (Content (SetStyle t row col style) ! r) = length (Content t ! r)"
  by (simp add: SetStyle_def Let_def append_rows_eq append_cells_eq nth_append nth_list_update)

lemma SetStyle_length: "length (Content t) \<le> length (Content (SetStyle t row col style))"
  by (simp add: SetStyle_def Let_def append_rows_eq)

text \<open>
  The loops of \<open>SetStyleRange\<close>. \<open>SetStyleRange_cols\<close> is
  \<open>for col := startCol; col <= endCol; col++ { t.SetStyle(row, col, style) }\<close>. Its \<open>col++\<close>
  wraps around at the largest \<open>int\<close>, so for \<open>endCol = MaxInt\<close> the condition holds for every
  \<open>col\<close> and the loop never ends: the result is an \<open>option\<close>, and \<open>None\<close> stands for a call that
  does not return.
\<close>

partial_function (option) SetStyleRange_cols ::
  "TextGrid \<Rightarrow> int \<Rightarrow> int \<Rightarrow> int \<Rightarrow> TextGridStyle \<Rightarrow> TextGrid option" where
  "SetStyleRange_cols t row col endCol style =
    (if col \<le> endCol
     then SetStyleRange_cols (SetStyle t row col style) row (int64 (col + 1)) endCol style
     else Some t)"

text \<open>
  \<open>SetStyleRange_row\<close> is \<open>for col := startCol; col < len(t.Content[row]); col++ { ... }\<close>,
  whose condition indexes the buffer and panics when \<open>row\<close> is not a row of it. Its \<open>col\<close>
  is below a length, and \<open>col++\<close> does not wrap.
\<close>

function SetStyleRange_row :: "TextGrid \<Rightarrow> int \<Rightarrow> int \<Rightarrow> TextGridStyle \<Rightarrow> panic + TextGrid" where
  "SetStyleRange_row t row col style =
    (if row < 0 \<or> int (length (Content t)) \<le> row then Inl IndexOutOfRange
     else if col < int (length (Content t ! nat row))
       then SetStyleRange_row (SetStyle t row col style) row (col + 1) style
     else Inr t)"
  by pat_completeness auto
termination
proof (relation "measure (\<lambda>(t, row, col, style). nat (int (length (Content t ! nat row)) - col))")
  show "wf (measure (\<lambda>(t, row, col, style). nat (int (length (Content t ! nat row)) - col)))"
    by simp
next
  fix t :: TextGrid and row col :: int and style :: TextGridStyle
  assume a: "\<not> (row < 0 \<or> int (length (Content t)) \<le> row)"
    and b: "col < int (length (Content t ! nat row))"
  have "nat row < length (Content t)" using a by auto
  then have "length (Content (SetStyle t row col style) ! nat row) = length (Content t ! nat row)"
    by (rule SetStyle_row_length)
  then show "((SetStyle t row col style, row, col + 1, style), t, row, col, style)
      \<in> measure (\<lambda>(t, row, col, style). nat (int (length (Content t ! nat row)) - col))"
    using b by simp
qed

declare SetStyleRange_row.simps [simp del]

text \<open>
  \<open>SetStyleRange_middle\<close> is the loop over the middle rows,
  \<open>for rowNum := startRow + 1; rowNum < endRow-1; rowNum++\<close>. The bound \<open>endRow-1\<close> wraps
  around for the smallest \<open>int\<close>; \<open>rowNum\<close> is below the bound, and \<open>rowNum++\<close> does not wrap.
\<close>

function SetStyleRange_middle :: "TextGrid \<Rightarrow> int \<Rightarrow> int \<Rightarrow> TextGridStyle \<Rightarrow> panic + TextGrid" where
  "SetStyleRange_middle t rowNum endRow style =
    (if rowNum < int64 (endRow - 1) then
       (case SetStyleRange_row t rowNum 0 style of
          Inl e \<Rightarrow> Inl e
        | Inr t1 \<Rightarrow> SetStyleRange_middle t1 (rowNum + 1) endRow style)
     else Inr t)"
  by pat_completeness auto
termination
  by (relation "measure (\<lambda>(t, rowNum, endRow, style). nat (int64 (endRow - 1) - rowNum))") auto

declare SetStyleRange_middle.simps [simp del]

text \<open>
  \<open>SetStyleRange\<close> returns \<open>None\<close> when it does not return, \<open>Some (Inl e)\<close> when it panics and
  \<open>Some (Inr t)\<close> with the grid it leaves otherwise. In \<open>startRow + 1\<close> the row \<open>startRow\<close> is
  a row of the buffer (the loop before has indexed it), so the sum does not wrap.
\<close>

definition SetStyleRange ::
  "TextGrid \<Rightarrow> int \<Rightarrow> int \<Rightarrow> int \<Rightarrow> int \<Rightarrow> TextGridStyle \<Rightarrow> (panic + TextGrid) option" where
  "SetStyleRange t startRow startCol endRow endCol style =
    (if startRow = endRow
     then map_option Inr (SetStyleRange_cols t startRow startCol endCol style)
     else
       (case SetStyleRange_row t startRow startCol style of
          Inl e \<Rightarrow> Some (Inl e)
        | Inr t1 \<Rightarrow>
            (case SetStyleRange_middle t1 (startRow + 1) endRow style of
               Inl e \<Rightarrow> Some (Inl e)
             | Inr t2 \<Rightarrow> map_option Inr (SetStyleRange_cols t2 endRow 0 endCol style))))"

section \<open>The renderer of the text grid\<close>

text \<open>
  The pool \<open>objects\<close> holds canvas objects: a rectangle with its fill colour, position and
  size, or a text with its string, colour, position and size. The renderer's pointer to
  its \<open>TextGrid\<close> is the argument \<open>t\<close> of the functions below.
\<close>

datatype CanvasObject =
  Rectangle color "int \<times> int" "int \<times> int"
| CanvasText string color "int \<times> int" "int \<times> int"

record textGridRender =
  cols :: int
  rows :: int
  cellSize :: "int \<times> int"
  objects :: "CanvasObject list"

text \<open>
  \<open>CreateRenderer\<close>: the size of a cell is the minimum size of the text \<open>M\<close>, which the
  canvas package (outside the sources) computes.
\<close>

definition CreateRenderer :: "int \<times> int \<Rightarrow> textGridRender" where
  "CreateRenderer cell = \<lparr>cols = 0, rows = 0, cellSize = cell, objects = []\<rparr>"

definition appendTextCell :: "textGridRender \<Rightarrow> rune \<Rightarrow> textGridRender" where
  "appendTextCell r str =
    r\<lparr>objects := objects r @
      [Rectangle Transparent (0, 0) (0, 0), CanvasText (encode_rune str) ThemeTextColor (0, 0) (0, 0)]\<rparr>"

text \<open>
  \<open>setCellRune\<close> indexes the pool and asserts the types of the two objects; each of the
  four steps can panic.
\<close>

definition setCellRune ::
  "rune \<Rightarrow> int \<Rightarrow> TextGridStyle \<Rightarrow> CanvasObject list \<Rightarrow> panic + CanvasObject list" where
  "setCellRune str pos style objs =
    (if pos * 2 < 0 \<or> int (length objs) \<le> pos * 2 then Inl IndexOutOfRange
     else
       (case objs ! nat (pos * 2) of
          CanvasText s c p z \<Rightarrow> Inl TypeAssertion
        | Rectangle fill rp rz \<Rightarrow>
            if int (length objs) \<le> pos * 2 + 1 then Inl IndexOutOfRange
            else
              (case objs ! nat (pos * 2 + 1) of
                 Rectangle fill' rp' rz' \<Rightarrow> Inl TypeAssertion
               | CanvasText s c tp tz \<Rightarrow>
                   let txt = (if str = 0 then [CHR 0x20] else encode_rune str);
                       fg = (case style of
                               None \<Rightarrow> ThemeTextColor
                             | Some st \<Rightarrow>
                                 (case TextColor st of None \<Rightarrow> ThemeTextColor | Some c' \<Rightarrow> c'));
                       bg = (case style of
                               None \<Rightarrow> Transparent
                             | Some st \<Rightarrow>
                                 (case BackgroundColor st of None \<Rightarrow> Transparent | Some c' \<Rightarrow> c'))
                   in Inr (objs[nat (pos * 2 + 1) := CanvasText txt fg tp tz,
                                nat (pos * 2) := Rectangle bg rp rz]))))"

lemma setCellRune_length: "setCellRune str pos style objs = Inr objs' \<Longrightarrow> length objs' = length objs"
  by (auto simp: setCellRune_def Let_def split: if_splits CanvasObject.splits)

text \<open>
  The loop \<open>for i := len(t.objects); i < cellCount*2; i += 2\<close> of \<open>ensureGrid\<close>, with
  \<open>n\<close> for \<open>cellCount*2\<close>. The products \<open>t.cols * t.rows\<close> and \<open>cellCount*2\<close> wrap around;
  \<open>i\<close> is below the even number \<open>cellCount*2\<close>, and \<open>i += 2\<close> does not wrap.
\<close>

function ensureGrid_loop :: "int \<Rightarrow> int \<Rightarrow> textGridRender \<Rightarrow> textGridRender" where
  "ensureGrid_loop i n r = (if i < n then ensureGrid_loop (i + 2) n (appendTextCell r 32) else r)"
  by pat_completeness auto
termination
  by (relation "measure (\<lambda>(i, n, r). nat (n - i))") auto

declare ensureGrid_loop.simps [simp del]

definition ensureGrid :: "textGridRender \<Rightarrow> textGridRender" where
  "ensureGrid r =
    (let cellCount = int64 (cols r * rows r) in
     if int (length (objects r)) = int64 (cellCount * 2) then r
     else ensureGrid_loop (int (length (objects r))) (int64 (cellCount * 2)) r)"

text \<open>
  \<open>Sprintf_d n\<close> is \<open>fmt.Sprintf("%d", n)\<close>, the decimal digits of \<open>n\<close>; \<open>lineCountWidth\<close> is
  the length of \<open>fmt.Sprintf("%d", t.rows+1)\<close>, where the sum wraps around.
\<close>

function digits :: "nat \<Rightarrow> string" where
  "digits n = (if n < 10 then [char_of (48 + n)] else digits (n div 10) @ [char_of (48 + n mod 10)])"
  by pat_completeness auto
termination
  by (relation "measure id") auto

declare digits.simps [simp del]

definition Sprintf_d :: "int \<Rightarrow> string" where
  "Sprintf_d n = (if n < 0 then CHR ''-'' # digits (nat (- n)) else digits (nat n))"

definition lineCountWidth :: "textGridRender \<Rightarrow> int" where
  "lineCountWidth r = int (length (Sprintf_d (int64 (rows r + 1))))"

text \<open>
  The loops of \<open>refreshGrid\<close> within one row keep the column \<open>i\<close>, the index \<open>x\<close> into the
  pool and the pool. \<open>paint_runes\<close> is the loop over the digits of the line number,
  \<open>paint_blanks n\<close> the loops \<open>for ; i < n; i++\<close> that paint spaces (the padding of the
  gutter, the blanks at the end of a row), \<open>paint_cells\<close> the loop over the cells of the
  row. The runes of a space and of \<open>|\<close> are 32 and 124.
\<close>

type_synonym paint_state = "int \<times> int \<times> CanvasObject list"

fun paint_runes :: "rune list \<Rightarrow> TextGridStyle \<Rightarrow> paint_state \<Rightarrow> panic + paint_state" where
  "paint_runes [] style st = Inr st"
| "paint_runes (c # cs) style (i, x, objs) =
    (case setCellRune c x style objs of
       Inl e \<Rightarrow> Inl e
     | Inr objs' \<Rightarrow> paint_runes cs style (i + 1, x + 1, objs'))"

function paint_blanks :: "int \<Rightarrow> TextGridStyle \<Rightarrow> int \<Rightarrow> int \<Rightarrow> CanvasObject list \<Rightarrow> panic + paint_state" where
  "paint_blanks n style i x objs =
    (if i < n then
       (case setCellRune 32 x style objs of
          Inl e \<Rightarrow> Inl e
        | Inr objs' \<Rightarrow> paint_blanks n style (i + 1) (x + 1) objs')
     else Inr (i, x, objs))"
  by pat_completeness auto
termination
  by (relation "measure (\<lambda>(n, style, i, x, objs). nat (n - i))") auto

declare paint_blanks.simps [simp del]

definition textAreaSpaceSymbol :: rune where "textAreaSpaceSymbol = 183"
definition textAreaNewLineSymbol :: rune where "textAreaNewLineSymbol = 8629"

fun paint_cells :: "bool \<Rightarrow> int \<Rightarrow> TextGridCell list \<Rightarrow> paint_state \<Rightarrow> panic + paint_state" where
  "paint_cells ws n [] st = Inr st"
| "paint_cells ws n (r # rs) (i, x, objs) =
    (if n \<le> i then paint_cells ws n rs (i, x, objs)
     else
       (case
          (if ws \<and> Rune r = 32 then
             (case Style r of
                None \<Rightarrow> setCellRune textAreaSpaceSymbol x TextGridStyleWhitespace objs
              | Some st \<Rightarrow>
                  (case BackgroundColor st of
                     None \<Rightarrow> setCellRune textAreaSpaceSymbol x TextGridStyleWhitespace objs
                   | Some bg \<Rightarrow>
                       setCellRune textAreaSpaceSymbol x
                         (Some \<lparr>FGColor = TextColor (the TextGridStyleWhitespace),
                                BGColor = BackgroundColor st\<rparr>) objs))
           else setCellRune (Rune r) x (Style r) objs)
        of
          Inl e \<Rightarrow> Inl e
        | Inr objs' \<Rightarrow> paint_cells ws n rs (i + 1, x + 1, objs')))"

text \<open>One iteration of the loop over the rows of the buffer, from \<open>i := 0\<close> to \<open>line++\<close>.\<close>

definition refreshGrid_row ::
  "TextGrid \<Rightarrow> textGridRender \<Rightarrow> int \<Rightarrow> int \<Rightarrow> TextGridCell list \<Rightarrow> int \<Rightarrow> CanvasObject list \<Rightarrow>
    panic + int \<times> CanvasObject list" where
  "refreshGrid_row t r rowIndex line row x objs =
    (case
       (if LineNumbers t then
          (case paint_runes (range_runes (Sprintf_d line)) TextGridStyleWhitespace (0, x, objs) of
             Inl e \<Rightarrow> Inl e
           | Inr (i1, x1, objs1) \<Rightarrow>
               (case paint_blanks (lineCountWidth r) TextGridStyleWhitespace i1 x1 objs1 of
                  Inl e \<Rightarrow> Inl e
                | Inr (i2, x2, objs2) \<Rightarrow>
                    (case setCellRune 124 x2 TextGridStyleWhitespace objs2 of
                       Inl e \<Rightarrow> Inl e
                     | Inr objs3 \<Rightarrow> Inr (i2 + 1, x2 + 1, objs3))))
        else Inr (0, x, objs))
     of
       Inl e \<Rightarrow> Inl e
     | Inr st \<Rightarrow>
         (case paint_cells (Whitespace t) (cols r) row st of
            Inl e \<Rightarrow> Inl e
          | Inr (i4, x4, objs4) \<Rightarrow>
              (case
                 (if Whitespace t \<and> i4 < cols r \<and> rowIndex < int (length (Content t)) - 1 then
                    (case setCellRune textAreaNewLineSymbol x4 TextGridStyleWhitespace objs4 of
                       Inl e \<Rightarrow> Inl e
                     | Inr objs5 \<Rightarrow> Inr (i4 + 1, x4 + 1, objs5))
                  else Inr (i4, x4, objs4))
               of
                 Inl e \<Rightarrow> Inl e
               | Inr (i5, x5, objs5) \<Rightarrow>
                   (case paint_blanks (cols r) TextGridStyleDefault i5 x5 objs5 of
                      Inl e \<Rightarrow> Inl e
                    | Inr (i6, x6, objs6) \<Rightarrow> Inr (x6, objs6)))))"

fun refreshGrid_rows ::
  "TextGrid \<Rightarrow> textGridRender \<Rightarrow> TextGridCell list list \<Rightarrow> int \<Rightarrow> int \<Rightarrow> int \<Rightarrow> CanvasObject list \<Rightarrow>
    panic + int \<times> CanvasObject list" where
  "refreshGrid_rows t r [] rowIndex line x objs = Inr (x, objs)"
| "refreshGrid_rows t r (row # rest) rowIndex line x objs =
    (if rows r \<le> rowIndex then Inr (x, objs)
     else
       (case refreshGrid_row t r rowIndex line row x objs of
          Inl e \<Rightarrow> Inl e
        | Inr (x', objs') \<Rightarrow> refreshGrid_rows t r rest (rowIndex + 1) (line + 1) x' objs'))"

text \<open>The last loop of \<open>refreshGrid\<close>: \<open>for ; x < len(t.objects)/2; x++\<close>.\<close>

function refreshGrid_blank :: "int \<Rightarrow> CanvasObject list \<Rightarrow> panic + CanvasObject list" where
  "refreshGrid_blank x objs =
    (if x < int (length objs) div 2 then
       (case setCellRune 32 x TextGridStyleDefault objs of
          Inl e \<Rightarrow> Inl e
        | Inr objs' \<Rightarrow> refreshGrid_blank (x + 1) objs')
     else Inr objs)"
  by pat_completeness auto
termination
  by (relation "measure (\<lambda>(x, objs). nat (int (length objs) div 2 - x))")
    (auto dest: setCellRune_length)

declare refreshGrid_blank.simps [simp del]

definition refreshGrid :: "TextGrid \<Rightarrow> textGridRender \<Rightarrow> panic + textGridRender" where
  "refreshGrid t r =
    (case refreshGrid_rows t r (Content t) 0 1 0 (objects r) of
       Inl e \<Rightarrow> Inl e
     | Inr (x, objs) \<Rightarrow>
         (case refreshGrid_blank x objs of
            Inl e \<Rightarrow> Inl e
          | Inr objs' \<Rightarrow> Inr (r\<lparr>objects := objs'\<rparr>)))"

definition Refresh :: "TextGrid \<Rightarrow> textGridRender \<Rightarrow> panic + textGridRender" where
  "Refresh t r = refreshGrid t (ensureGrid r)"

text \<open>
  \<open>updateGridSize\<close>: the sizes are integers (pixels). \<open>math.Max\<close> of two integers that are
  converted to \<open>float64\<close> and back is their maximum, and \<open>math.Floor\<close> of the quotient of two
  such integers is \<open>div\<close>, for a cell size above zero and a size whose absolute value plus
  the cell size is below \<open>2 ^ 53\<close>: then the conversions are exact, and the rounded quotient
  is on the same side of every integer as the quotient. The theorems about \<open>Layout\<close> are
  stated for such sizes.
\<close>

definition updateGridSize :: "TextGrid \<Rightarrow> textGridRender \<Rightarrow> int \<times> int \<Rightarrow> textGridRender" where
  "updateGridSize t r sz =
    (let bufRows = int (length (Content t));
         bufCols = fold (\<lambda>row bufCols. max bufCols (int (length row))) (Content t) 0;
         sizeCols = fst sz div fst (cellSize r);
         sizeRows = snd sz div snd (cellSize r);
         bufCols1 = (if Whitespace t then bufCols + 1 else bufCols);
         bufCols2 = (if LineNumbers t then bufCols1 + lineCountWidth r else bufCols1)
     in r\<lparr>cols := max sizeCols bufCols2, rows := max sizeRows bufRows\<rparr>)"

text \<open>
  \<open>Layout\<close>: \<open>Layout_cell\<close> is the body of the inner loop, which moves the text at
  \<open>i*2+1\<close>, then resizes and moves the rectangle at \<open>i*2\<close>; \<open>Layout_cols\<close> is the loop over
  \<open>x\<close> and \<open>Layout_rows\<close> the loop over \<open>y\<close>. The sums \<open>cellPos.X += t.cellSize.Width\<close> and
  \<open>cellPos.Y += t.cellSize.Height\<close> wrap around.
\<close>

definition Move :: "int \<times> int \<Rightarrow> CanvasObject \<Rightarrow> CanvasObject" where
  "Move p ob =
    (case ob of Rectangle fill rp rz \<Rightarrow> Rectangle fill p rz | CanvasText s c tp tz \<Rightarrow> CanvasText s c p tz)"

definition Resize :: "int \<times> int \<Rightarrow> CanvasObject \<Rightarrow> CanvasObject" where
  "Resize z ob =
    (case ob of Rectangle fill rp rz \<Rightarrow> Rectangle fill rp z | CanvasText s c tp tz \<Rightarrow> CanvasText s c tp z)"

definition Layout_cell ::
  "textGridRender \<Rightarrow> int \<Rightarrow> int \<times> int \<Rightarrow> CanvasObject list \<Rightarrow> panic + CanvasObject list" where
  "Layout_cell r i cellPos objs =
    (if i * 2 + 1 < 0 \<or> int (length objs) \<le> i * 2 + 1 then Inl IndexOutOfRange
     else
       let objs1 = objs[nat (i * 2 + 1) := Move cellPos (objs ! nat (i * 2 + 1))] in
       if i * 2 < 0 then Inl IndexOutOfRange
       else Inr (objs1[nat (i * 2) := Move cellPos (Resize (cellSize r) (objs1 ! nat (i * 2)))]))"

function Layout_cols ::
  "textGridRender \<Rightarrow> int \<Rightarrow> int \<Rightarrow> int \<times> int \<Rightarrow> CanvasObject list \<Rightarrow>
    panic + int \<times> (int \<times> int) \<times> CanvasObject list" where
  "Layout_cols r x i cellPos objs =
    (if x < cols r then
       (case Layout_cell r i cellPos objs of
          Inl e \<Rightarrow> Inl e
        | Inr objs' \<Rightarrow>
            Layout_cols r (x + 1) (i + 1) (int64 (fst cellPos + fst (cellSize r)), snd cellPos) objs')
     else Inr (i, cellPos, objs))"
  by pat_completeness auto
termination
  by (relation "measure (\<lambda>(r, x, i, cellPos, objs). nat (cols r - x))") auto

declare Layout_cols.simps [simp del]

function Layout_rows ::
  "textGridRender \<Rightarrow> int \<Rightarrow> int \<Rightarrow> int \<times> int \<Rightarrow> CanvasObject list \<Rightarrow> panic + CanvasObject list" where
  "Layout_rows r y i cellPos objs =
    (if y < rows r then
       (case Layout_cols r 0 i cellPos objs of
          Inl e \<Rightarrow> Inl e
        | Inr (i', cellPos', objs') \<Rightarrow>
            Layout_rows r (y + 1) i' (0, int64 (snd cellPos' + snd (cellSize r))) objs')
     else Inr objs)"
  by pat_completeness auto
termination
  by (relation "measure (\<lambda>(r, y, i, cellPos, objs). nat (rows r - y))") auto

declare Layout_rows.simps [simp del]

definition Layout :: "TextGrid \<Rightarrow> textGridRender \<Rightarrow> int \<times> int \<Rightarrow> panic + textGridRender" where
  "Layout t r sz =
    (let r1 = ensureGrid (updateGridSize t r sz) in
     case Layout_rows r1 0 0 (0, 0) (objects r1) of
       Inl e \<Rightarrow> Inl e
     | Inr objs \<Rightarrow> Inr (r1\<lparr>objects := objs\<rparr>))"

text \<open>
  A reconciliation pass is a \<open>Layout\<close> (a resize) or a \<open>Refresh\<close>; between two passes the
  program may have changed the widget, so each pass comes with the \<open>TextGrid\<close> it finds.
  A pass that panics ends the run.
\<close>

datatype pass = LayoutPass "int \<times> int" | RefreshPass

fun run_passes :: "textGridRender \<Rightarrow> (TextGrid \<times> pass) list \<Rightarrow> panic + textGridRender" where
  "run_passes r [] = Inr r"
| "run_passes r ((t, LayoutPass sz) # ps) =
    (case Layout t r sz of Inl e \<Rightarrow> Inl e | Inr r' \<Rightarrow> run_passes r' ps)"
| "run_passes r ((t, RefreshPass) # ps) =
    (case Refresh t r of Inl e \<Rightarrow> Inl e | Inr r' \<Rightarrow> run_passes r' ps)"

section \<open>Definitions for the statements\<close>

text \<open>
  The measured width in the words of the specification: the characters with no glyph are
  left out of the string, and the width is the sum of the advances of the others plus the
  kerning of each pair of neighbours among them.
\<close>

definition glyph_advances :: "'g font_Face \<Rightarrow> rune list \<Rightarrow> Int26_6" where
  "glyph_advances f cs = sum_list (map (\<lambda>c. case GlyphAdvance f c of None \<Rightarrow> 0 | Some a \<Rightarrow> a) cs)"

definition rendered :: "'g font_Face \<Rightarrow> rune list \<Rightarrow> rune list" where
  "rendered f cs = filter (\<lambda>c. GlyphAdvance f c \<noteq> None) cs"

definition pair_kerns :: "'g font_Face \<Rightarrow> rune list \<Rightarrow> Int26_6" where
  "pair_kerns f cs = sum_list (map (\<lambda>(p, c). Kern f p c) (zip cs (tl cs)))"

definition spec_advance :: "'g font_Face \<Rightarrow> rune list \<Rightarrow> Int26_6" where
  "spec_advance f cs = glyph_advances f (rendered f cs) + pair_kerns f (rendered f cs)"

text \<open>
  The kerning the code adds: \<open>prev_rendered f p0 cs i\<close> is the last character before
  position \<open>i\<close> that has a glyph (\<open>p0\<close> when there is none), and \<open>kern_at\<close> the kerning
  between it and the character at \<open>i\<close>, whether that one has a glyph or not.
\<close>

definition prev_rendered :: "'g font_Face \<Rightarrow> rune \<Rightarrow> rune list \<Rightarrow> nat \<Rightarrow> rune" where
  "prev_rendered f p0 cs i = last (p0 # rendered f (take i cs))"

definition kern_at :: "'g font_Face \<Rightarrow> rune \<Rightarrow> rune list \<Rightarrow> nat \<Rightarrow> Int26_6" where
  "kern_at f p0 cs i =
    (if 0 \<le> prev_rendered f p0 cs i then Kern f (prev_rendered f p0 cs i) (cs ! i) else 0)"

definition kern_sum :: "'g font_Face \<Rightarrow> rune list \<Rightarrow> Int26_6" where
  "kern_sum f cs = (\<Sum>i<length cs. kern_at f (- 1) cs i)"

text \<open>
  A face is consistent when \<open>Glyph\<close> and \<open>GlyphAdvance\<close> agree on which characters have a
  glyph and on its advance, at every pen position.
\<close>

definition consistent_Face :: "'g font_Face \<Rightarrow> bool" where
  "consistent_Face f = (\<forall>dot c. map_option snd (Glyph f dot c) = GlyphAdvance f c)"

text \<open>
  \<open>same_advance x0 m r\<close>: drawing from the pen position \<open>x0\<close> ended as measuring did, with the
  same panic or with the pen advanced by the measured width.
\<close>

definition same_advance :: "Int26_6 \<Rightarrow> panic + Int26_6 \<Rightarrow> panic + 'g Drawer \<Rightarrow> bool" where
  "same_advance x0 m r =
    (case m of Inl e \<Rightarrow> r = Inl e | Inr a \<Rightarrow> (\<exists>d'. r = Inr d' \<and> fst (Dot d') = x0 + a))"

text \<open>
  Inputs of the examples: a face with a space of one pixel (64 units) and the letter \<open>a\<close>
  of ten pixels, no other glyph, and a kerning of one pixel between \<open>a\<close> and \<open>b\<close>; a face
  with no glyph at all; a drawer whose pen is one pixel right of the origin.
\<close>

definition example_face :: "unit font_Face" where
  "example_face =
    \<lparr>Glyph = (\<lambda>dot c. if c = 32 then Some ((), 64) else if c = 97 then Some ((), 640) else None),
     GlyphAdvance = (\<lambda>c. if c = 32 then Some 64 else if c = 97 then Some 640 else None),
     Kern = (\<lambda>p c. if p = 97 \<and> c = 98 then 64 else 0)\<rparr>"

definition empty_face :: "unit font_Face" where
  "empty_face = \<lparr>Glyph = (\<lambda>dot c. None), GlyphAdvance = (\<lambda>c. None), Kern = (\<lambda>p c. 0)\<rparr>"

definition example_drawer :: "unit Drawer" where
  "example_drawer = \<lparr>Dst = [], Face = example_face, Dot = (64, 0)\<rparr>"

text \<open>
  A string is valid UTF-8 when it is \<open>utf8 rs\<close>, the encoding of a sequence \<open>rs\<close> of Unicode
  scalar values: code points up to \<open>0x10FFFF\<close> that are no surrogates.
\<close>

definition valid_rune :: "rune \<Rightarrow> bool" where
  "valid_rune r = (0 \<le> r \<and> r \<le> 1114111 \<and> \<not> (55296 \<le> r \<and> r \<le> 57343))"

definition utf8 :: "rune list \<Rightarrow> string" where
  "utf8 rs = concat (map encode_rune rs)"

text \<open>\<open>join_lines\<close> joins lines with a newline between two of them; \<open>row_text\<close> is the text of a row.\<close>

fun join_lines :: "string list \<Rightarrow> string" where
  "join_lines [] = []"
| "join_lines (p # ps) = p @ (if ps \<noteq> [] then [CHR 0x0A] else []) @ join_lines ps"

definition row_text :: "TextGridCell list \<Rightarrow> string" where
  "row_text row = concat (map (\<lambda>r. encode_rune (Rune r)) row)"

text \<open>A grid with the text \<open>ab\<close> whose first cell has the whitespace style.\<close>

definition styled_grid :: TextGrid where
  "styled_grid = SetStyle (SetText NewTextGrid ''ab'') 0 0 TextGridStyleWhitespace"


text \<open>
  The sizes for which the floating-point arithmetic of \<open>updateGridSize\<close> is exact:
  \<open>exact_size cell sz\<close> for a cell size and the size of a layout, \<open>exact_passes cell ps\<close> for
  the layouts of a sequence of passes.
\<close>

definition exact_size :: "int \<times> int \<Rightarrow> int \<times> int \<Rightarrow> bool" where
  "exact_size cell sz =
    (0 < fst cell \<and> 0 < snd cell \<and>
     \<bar>fst sz\<bar> + fst cell < 2 ^ 53 \<and> \<bar>snd sz\<bar> + snd cell < 2 ^ 53)"

fun exact_passes :: "int \<times> int \<Rightarrow> (TextGrid \<times> pass) list \<Rightarrow> bool" where
  "exact_passes cell [] = True"
| "exact_passes cell ((t, LayoutPass sz) # ps) = (exact_size cell sz \<and> exact_passes cell ps)"
| "exact_passes cell ((t, RefreshPass) # ps) = exact_passes cell ps"

text \<open>
  What the pool shows. The pool is well formed (\<open>pool_ok\<close>) when it is a sequence of cells, a
  rectangle followed by a text, as \<open>appendTextCell\<close> makes them. \<open>cell_view objs k\<close> is what the
  cell \<open>k\<close> of the pool shows: its text, the colour of the text and the colour of the
  rectangle. \<open>rune_text\<close>, \<open>style_fg\<close> and \<open>style_bg\<close> are the text and the colours that
  \<open>setCellRune\<close> gives a cell.
\<close>

fun pool_ok :: "CanvasObject list \<Rightarrow> bool" where
  "pool_ok [] = True"
| "pool_ok (Rectangle fill p z # CanvasText s c p' z' # rest) = pool_ok rest"
| "pool_ok objs = False"

definition cell_view :: "CanvasObject list \<Rightarrow> nat \<Rightarrow> (string \<times> color \<times> color) option" where
  "cell_view objs k =
    (if 2 * k + 1 < length objs then
       (case objs ! (2 * k) of
          Rectangle fill p z \<Rightarrow>
            (case objs ! (2 * k + 1) of
               CanvasText s c p' z' \<Rightarrow> Some (s, c, fill)
             | Rectangle fill' p' z' \<Rightarrow> None)
        | CanvasText s c p z \<Rightarrow> None)
     else None)"

definition cells_shown ::
  "nat list \<Rightarrow> panic + textGridRender \<Rightarrow> panic + (string \<times> color \<times> color) option list" where
  "cells_shown ks res = map_sum id (\<lambda>r. map (cell_view (objects r)) ks) res"

definition rune_text :: "rune \<Rightarrow> string" where
  "rune_text c = (if c = 0 then [CHR 0x20] else encode_rune c)"

definition style_fg :: "TextGridStyle \<Rightarrow> color" where
  "style_fg style =
    (case style of
       None \<Rightarrow> ThemeTextColor
     | Some st \<Rightarrow> (case TextColor st of None \<Rightarrow> ThemeTextColor | Some c \<Rightarrow> c))"

definition style_bg :: "TextGridStyle \<Rightarrow> color" where
  "style_bg style =
    (case style of
       None \<Rightarrow> Transparent
     | Some st \<Rightarrow> (case BackgroundColor st of None \<Rightarrow> Transparent | Some c \<Rightarrow> c))"

text \<open>\<open>keeps x objs objs'\<close>: the pool \<open>objs'\<close> shows in the cells before \<open>x\<close> what \<open>objs\<close> shows there.\<close>

definition keeps :: "int \<Rightarrow> CanvasObject list \<Rightarrow> CanvasObject list \<Rightarrow> bool" where
  "keeps x objs objs' =
    (pool_ok objs' \<and> length objs' = length objs \<and>
     (\<forall>k. int k < x \<longrightarrow> cell_view objs' k = cell_view objs k))"

text \<open>
  The gutter of a line, left-justified in \<open>w\<close> cells and closed by a bar: \<open>gutter_runes\<close> are
  the runes that \<open>refreshGrid\<close> paints, \<open>gutter_text\<close> is the text they make.
\<close>

definition gutter_runes :: "int \<Rightarrow> int \<Rightarrow> rune list" where
  "gutter_runes line w =
    range_runes (Sprintf_d line) @
    replicate (nat (w - int (length (range_runes (Sprintf_d line))))) 32 @ [124]"

definition gutter_text :: "int \<Rightarrow> int \<Rightarrow> string" where
  "gutter_text line w =
    Sprintf_d line @ replicate (nat (w - int (length (Sprintf_d line)))) (CHR 0x20) @ [CHR 0x7C]"

text \<open>A grid of ten empty rows with line numbers.\<close>

definition numbered_grid :: TextGrid where
  "numbered_grid = (SetText NewTextGrid (replicate 9 (CHR 0x0A)))\<lparr>LineNumbers := True\<rparr>"

section \<open>The tab stop\<close>

lemma div_pos_bounds:
  fixes X T :: int
  assumes "0 < T"
  shows "X - T < T * (X div T)" "T * (X div T) \<le> X"
proof -
  have "T * (X div T) + X mod T = X" by (rule mult_div_mod_eq)
  moreover have "0 \<le> X mod T" "X mod T < T" using assms by simp_all
  ultimately show "X - T < T * (X div T)" "T * (X div T) \<le> X" by linarith+
qed

lemma sdiv_pos_bounds:
  fixes X T :: int
  assumes "0 < T" 
  shows "X - T < T * (X sdiv T) \<and> T * (X sdiv T) \<le> max 0 X \<and> min 0 X \<le> T * (X sdiv T)"
proof (cases "0 \<le> X")
  case True
  then have e: "X sdiv T = X div T"
    using assms by (simp add: signed_divide_int_def sgn_if)
  have "0 \<le> X div T" using True assms by (simp add: pos_imp_zdiv_nonneg_iff)
  then have "0 \<le> T * (X div T)" using assms by simp
  then show ?thesis using True e div_pos_bounds [OF assms, of X] by (simp add: max_def min_def)
next
  case False
  then have e: "X sdiv T = - ((- X) div T)"
    using assms by (simp add: signed_divide_int_def sgn_if)
  have "0 \<le> (- X) div T" using False assms by (simp add: pos_imp_zdiv_nonneg_iff)
  then have "0 \<le> T * ((- X) div T)" using assms by simp
  then show ?thesis using False e assms div_pos_bounds [OF assms, of "- X"]
    by (simp add: max_def min_def)
qed

lemma sdiv_pos_range:
  fixes X T :: int
  assumes "0 < T"
  shows "min 0 X \<le> X sdiv T \<and> X sdiv T \<le> max 0 X"
proof (cases "0 \<le> X")
  case True
  then have e: "X sdiv T = X div T"
    using assms by (simp add: signed_divide_int_def sgn_if)
  have "0 \<le> X div T" using True assms by (simp add: pos_imp_zdiv_nonneg_iff)
  moreover have "X div T \<le> X div 1"
    using True assms by (intro zdiv_mono2) simp_all
  ultimately show ?thesis using True e by (simp add: max_def min_def)
next
  case False
  then have e: "X sdiv T = - ((- X) div T)"
    using assms by (simp add: signed_divide_int_def sgn_if)
  have "0 \<le> (- X) div T" using False assms by (simp add: pos_imp_zdiv_nonneg_iff)
  moreover have "(- X) div T \<le> (- X) div 1"
    using False assms by (intro zdiv_mono2) simp_all
  ultimately show ?thesis using False e by (simp add: max_def min_def)
qed

lemma sint_32_range: "- (2 ^ 31) \<le> sint (a :: Int26_6) \<and> sint a < 2 ^ 31"
  using sint_ge [of a] sint_lt [of a] by simp

lemma sint_word_of_int_32:
  "- (2 ^ 31) \<le> k \<Longrightarrow> k < 2 ^ 31 \<Longrightarrow> sint (word_of_int k :: Int26_6) = k"
  by (simp add: sint_sbintrunc' signed_take_bit_int_eq_self)

lemma sint_div32:
  assumes "0 < sint b"
  shows "sint (div32 a b) = sint a sdiv sint b"
proof -
  have "min 0 (sint a) \<le> sint a sdiv sint b \<and> sint a sdiv sint b \<le> max 0 (sint a)"
    using assms by (rule sdiv_pos_range)
  then have "- (2 ^ 31) \<le> sint a sdiv sint b" "sint a sdiv sint b < 2 ^ 31"
    using sint_32_range [of a] by (auto simp: min_def max_def split: if_splits)
  then show ?thesis unfolding div32_def by (rule sint_word_of_int_32)
qed

lemma sint_add_32:
  "- (2 ^ 31) \<le> sint a + sint b \<Longrightarrow> sint a + sint b < 2 ^ 31 \<Longrightarrow>
    sint (a + b :: Int26_6) = sint a + sint b"
  by (simp add: sint_word_add signed_take_bit_int_eq_self)

lemma sint_mult_32:
  "- (2 ^ 31) \<le> sint a * sint b \<Longrightarrow> sint a * sint b < 2 ^ 31 \<Longrightarrow>
    sint (a * b :: Int26_6) = sint a * sint b"
  by (simp add: sint_word_mult signed_take_bit_int_eq_self)

text \<open>
  Claim C7, as the code has it. When the space glyph is missing, \<open>tabStop\<close> returns \<open>x\<close>.
  When it has the advance \<open>w\<close> and the tab width is \<open>n\<close>, and the tab cell \<open>w * n\<close> is positive
  and neither it nor \<open>x + w * n\<close> leaves the 32-bit range, \<open>tabStop\<close> returns
  \<open>w * n\<close> times the quotient of \<open>x + w * n\<close> by \<open>w * n\<close>, truncated towards zero: a multiple
  of the tab cell that is above \<open>x\<close>. For \<open>x + w * n\<close> at or above zero the quotient is the
  floor, and the result is the next tab boundary, at most \<open>x + w * n\<close>.
\<close>

theorem tabStop_boundary:
  "(GlyphAdvance f 32 = None \<longrightarrow> tabStop f n x = Inr x) \<and>
   (\<forall>w. GlyphAdvance f 32 = Some w \<and> 0 < sint w * sint n \<and> sint w * sint n < 2 ^ 31 \<and>
        sint x + sint w * sint n < 2 ^ 31 \<longrightarrow>
     (\<exists>r. tabStop f n x = Inr r \<and>
          sint r = sint w * sint n * ((sint x + sint w * sint n) sdiv (sint w * sint n)) \<and>
          sint w * sint n dvd sint r \<and> sint x < sint r \<and>
          (0 \<le> sint x + sint w * sint n \<longrightarrow>
             sint r = (sint x + sint w * sint n) div (sint w * sint n) * (sint w * sint n) \<and>
             sint r \<le> sint x + sint w * sint n)))"
proof (intro conjI allI impI)
  assume "GlyphAdvance f 32 = None"
  then show "tabStop f n x = Inr x" by (simp add: tabStop_def)
next
  fix w
  assume a: "GlyphAdvance f 32 = Some w \<and> 0 < sint w * sint n \<and> sint w * sint n < 2 ^ 31 \<and>
    sint x + sint w * sint n < 2 ^ 31"
  define T where "T = sint w * sint n"
  define X where "X = sint x"
  have T: "0 < T" "T < 2 ^ 31" "X + T < 2 ^ 31" using a by (simp_all add: T_def X_def)
  have Xr: "- (2 ^ 31) \<le> X" "X < 2 ^ 31" using sint_32_range [of x] by (simp_all add: X_def)
  have tabw: "sint (w * n) = T"
    unfolding T_def using T(1,2) by (intro sint_mult_32) (simp_all add: T_def)
  have nz: "w * n \<noteq> 0" using tabw T(1) by auto
  have sum: "sint (x + w * n) = X + T"
    using sint_add_32 [of x "w * n"] tabw T Xr by (simp add: X_def)
  have q: "sint (div32 (x + w * n) (w * n)) = (X + T) sdiv T"
    using sint_div32 [of "w * n" "x + w * n"] tabw T(1) sum by simp
  have b: "X < T * ((X + T) sdiv T) \<and> T * ((X + T) sdiv T) \<le> max 0 (X + T) \<and>
      min 0 (X + T) \<le> T * ((X + T) sdiv T)"
    using sdiv_pos_bounds [OF T(1), of "X + T"] by simp
  have r: "sint (w * n * div32 (x + w * n) (w * n)) = T * ((X + T) sdiv T)"
  proof -
    have "- (2 ^ 31) \<le> T * ((X + T) sdiv T)" "T * ((X + T) sdiv T) < 2 ^ 31"
      using b T Xr by (auto simp: min_def max_def split: if_splits)
    then show ?thesis using sint_mult_32 [of "w * n" "div32 (x + w * n) (w * n)"] tabw q by simp
  qed
  have fl: "0 \<le> X + T \<Longrightarrow> (X + T) sdiv T = (X + T) div T"
    using T(1) by (simp add: signed_divide_int_def sgn_if)
  have "tabStop f n x = Inr (w * n * div32 (x + w * n) (w * n))"
    using a nz by (simp add: tabStop_def Let_def)
  moreover have "sint (w * n * div32 (x + w * n) (w * n)) = T * ((X + T) sdiv T)" by (rule r)
  moreover have "T dvd T * ((X + T) sdiv T)" by simp
  moreover have "X < T * ((X + T) sdiv T)" using b by simp
  moreover have "0 \<le> X + T \<Longrightarrow> T * ((X + T) sdiv T) = (X + T) div T * T \<and> T * ((X + T) sdiv T) \<le> X + T"
    using fl b by (simp add: max_def mult.commute)
  ultimately show "\<exists>r. tabStop f n x = Inr r \<and>
          sint r = sint w * sint n * ((sint x + sint w * sint n) sdiv (sint w * sint n)) \<and>
          sint w * sint n dvd sint r \<and> sint x < sint r \<and>
          (0 \<le> sint x + sint w * sint n \<longrightarrow>
             sint r = (sint x + sint w * sint n) div (sint w * sint n) * (sint w * sint n) \<and>
             sint r \<le> sint x + sint w * sint n)"
    unfolding T_def [symmetric] X_def [symmetric] by auto
qed

text \<open>The theorem at a missing space glyph, and at a space of 64 units, four to a tab.\<close>

theorem tabStop_boundary_witness:
  "tabStop empty_face 4 100 = Inr 100 \<and>
   (\<exists>r. tabStop example_face 4 100 = Inr r \<and> sint r = 256 \<and> (256::int) dvd sint r \<and>
        sint (100 :: Int26_6) < sint r)"
proof -
  have n: "GlyphAdvance empty_face 32 = None" by (simp add: empty_face_def)
  have w: "GlyphAdvance example_face 32 = Some 64 \<and> 0 < sint (64 :: Int26_6) * sint (4 :: Int26_6) \<and>
      sint (64 :: Int26_6) * sint (4 :: Int26_6) < 2 ^ 31 \<and>
      sint (100 :: Int26_6) + sint (64 :: Int26_6) * sint (4 :: Int26_6) < 2 ^ 31"
    by (simp add: example_face_def)
  from tabStop_boundary [of empty_face 4 100] n have a: "tabStop empty_face 4 100 = Inr 100"
    by blast
  from tabStop_boundary [of example_face 4 100] w
  obtain r where "tabStop example_face 4 100 = Inr r"
    "sint r = sint (64 :: Int26_6) * sint (4 :: Int26_6) *
      ((sint (100 :: Int26_6) + sint (64 :: Int26_6) * sint (4 :: Int26_6)) sdiv
       (sint (64 :: Int26_6) * sint (4 :: Int26_6)))"
    "sint (64 :: Int26_6) * sint (4 :: Int26_6) dvd sint r" "sint (100 :: Int26_6) < sint r"
    by blast
  then show ?thesis using a by (auto simp: signed_divide_int_def)
qed

text \<open>
  A tab width of zero: the tab cell is zero, the division panics and \<open>tabStop\<close> returns
  nothing.
\<close>

theorem tabStop_zero_width_counterexample:
  "\<not> (\<exists>r. tabStop example_face 0 64 = Inr r \<and> sint (64 :: Int26_6) \<le> sint r)"
  by (simp add: tabStop_def example_face_def)

lemma tabStop_zero_width: "tabStop example_face 0 64 = Inl DivideByZero"
  by (simp add: tabStop_def example_face_def)

text \<open>
  A pen one pixel left of the end of the 32-bit range: the sum wraps around and the result
  is below \<open>x\<close>.
\<close>

lemma tabStop_wraps:
  "tabStop example_face 4 2147483584 = Inr r \<Longrightarrow> sint r < sint (2147483584 :: Int26_6)"
  by (auto simp: tabStop_def example_face_def div32_def signed_divide_int_def)

section \<open>Measuring a string\<close>

lemma kern_at_0: "kern_at f p0 (c # cs) 0 = (if 0 \<le> p0 then Kern f p0 c else 0)"
  by (simp add: kern_at_def prev_rendered_def rendered_def)

lemma kern_at_Suc:
  "kern_at f p0 (c # cs) (Suc i) = kern_at f (if GlyphAdvance f c = None then p0 else c) cs i"
  by (simp add: kern_at_def prev_rendered_def rendered_def)

lemma MeasureString_loop_sum:
  "9 \<notin> set cs \<Longrightarrow>
   MeasureString_loop f tw cs p0 adv =
     Inr (adv + glyph_advances f cs + (\<Sum>i<length cs. kern_at f p0 cs i))"
proof (induction cs arbitrary: p0 adv)
  case Nil
  then show ?case by (simp add: glyph_advances_def)
next
  case (Cons c cs)
  then have c: "c \<noteq> 9" and cs: "9 \<notin> set cs" by auto
  have split: "(\<Sum>i<length (c # cs). kern_at f p0 (c # cs) i) =
      kern_at f p0 (c # cs) 0 + (\<Sum>i<length cs. kern_at f p0 (c # cs) (Suc i))"
    unfolding length_Cons by (rule sum.lessThan_Suc_shift)
  show ?case
  proof (cases "GlyphAdvance f c")
    case None
    then show ?thesis
      using c Cons.IH [OF cs] split
      by (simp add: kern_at_0 kern_at_Suc glyph_advances_def Let_def)
  next
    case (Some a)
    then show ?thesis
      using c Cons.IH [OF cs] split
      by (simp add: kern_at_0 kern_at_Suc glyph_advances_def Let_def)
  qed
qed

lemma decode_rune_nonneg: "0 \<le> fst (decode_rune s)"
  by (cases s) (simp_all add: Let_def RuneError_def)

lemma range_runes_nonneg: "c \<in> set (range_runes s) \<Longrightarrow> 0 \<le> c"
proof (induction s rule: range_runes.induct)
  case (1 s)
  show ?case
  proof (cases "s = []")
    case True
    with "1.prems" show ?thesis by simp
  next
    case False
    then have "range_runes s = fst (decode_rune s) # range_runes (drop (snd (decode_rune s)) s)"
      by (cases s) (simp_all add: range_runes_Cons)
    with "1.prems" "1.IH" [OF False] decode_rune_nonneg [of s] show ?thesis by auto
  qed
qed

lemma MeasureString_loop_pairs:
  "9 \<notin> set cs \<Longrightarrow> \<forall>c\<in>set cs. GlyphAdvance f c \<noteq> None \<Longrightarrow> \<forall>c\<in>set (p # cs). 0 \<le> c \<Longrightarrow>
   MeasureString_loop f tw cs p adv =
     Inr (adv + glyph_advances f cs + pair_kerns f (p # cs))"
proof (induction cs arbitrary: p adv)
  case Nil
  then show ?case by (simp add: glyph_advances_def pair_kerns_def)
next
  case (Cons c cs)
  from Cons.prems obtain a where a: "GlyphAdvance f c = Some a" by auto
  have "MeasureString_loop f tw cs c (adv + Kern f p c + a) =
      Inr (adv + Kern f p c + a + glyph_advances f cs + pair_kerns f (c # cs))"
    using Cons.prems by (intro Cons.IH) auto
  then show ?case using Cons.prems a
    by (simp add: glyph_advances_def pair_kerns_def Let_def)
qed

lemma MeasureString_all_glyphs:
  assumes "9 \<notin> set (range_runes s)" "\<forall>c\<in>set (range_runes s). GlyphAdvance f c \<noteq> None"
  shows "MeasureString f tw s = Inr (spec_advance f (range_runes s))"
proof (cases "range_runes s")
  case Nil
  then show ?thesis
    by (simp add: MeasureString_def spec_advance_def rendered_def glyph_advances_def pair_kerns_def)
next
  case (Cons c cs)
  from assms Cons obtain a where a: "GlyphAdvance f c = Some a" by auto
  have nn: "\<forall>c\<in>set (c # cs). 0 \<le> c" using range_runes_nonneg [of _ s] Cons by auto
  have r: "rendered f (c # cs) = c # cs" using assms(2) Cons by (simp add: rendered_def)
  have "MeasureString_loop f tw cs c (0 + a) = Inr (0 + a + glyph_advances f cs + pair_kerns f (c # cs))"
    using assms Cons nn by (intro MeasureString_loop_pairs) auto
  then show ?thesis using Cons a assms(1) r
    by (simp add: MeasureString_def spec_advance_def glyph_advances_def Let_def)
qed

text \<open>
  Claim C5, as the code has it. For a string with no tab, \<open>MeasureString\<close> returns the sum
  of the advances of the characters that have a glyph, plus, for every character of the
  string that comes after a character with a glyph, the kerning between the last character
  with a glyph before it and itself. A character with no glyph adds no advance and is not
  the previous character of a later kerning, but its own kerning with the last character
  that has a glyph is added. When every character has a glyph, the width is the sum of
  the advances plus the kerning of the pairs of neighbours, as the specification has it.
\<close>

theorem MeasureString_sum:
  assumes "9 \<notin> set (range_runes s)"
  shows "MeasureString f tw s =
      Inr (glyph_advances f (range_runes s) + kern_sum f (range_runes s)) \<and>
    ((\<forall>c\<in>set (range_runes s). GlyphAdvance f c \<noteq> None) \<longrightarrow>
      MeasureString f tw s = Inr (spec_advance f (range_runes s)))"
proof
  show "MeasureString f tw s = Inr (glyph_advances f (range_runes s) + kern_sum f (range_runes s))"
    using MeasureString_loop_sum [OF assms, of f tw "- 1" 0]
    by (simp add: MeasureString_def kern_sum_def)
  show "(\<forall>c\<in>set (range_runes s). GlyphAdvance f c \<noteq> None) \<longrightarrow>
      MeasureString f tw s = Inr (spec_advance f (range_runes s))"
    using MeasureString_all_glyphs [OF assms] by blast
qed

lemma range_runes_aa: "range_runes ''aa'' = [97, 97]"
  by (simp add: range_runes_Cons)

lemma range_runes_ab: "range_runes ''ab'' = [97, 98]"
  by (simp add: range_runes_Cons)

text \<open>The theorem at the string \<open>aa\<close>, both of whose characters have a glyph.\<close>

theorem MeasureString_sum_witness:
  "9 \<notin> set (range_runes ''aa'') \<and>
   range_runes ''aa'' = [97, 97] \<and> GlyphAdvance example_face 97 = Some 640 \<and>
   MeasureString example_face 4 ''aa'' = Inr 1280 \<and>
   glyph_advances example_face (range_runes ''aa'') + kern_sum example_face (range_runes ''aa'') = 1280 \<and>
   spec_advance example_face (range_runes ''aa'') = 1280"
proof -
  have t: "9 \<notin> set (range_runes ''aa'')" by (simp add: range_runes_aa)
  have g: "\<forall>c\<in>set (range_runes ''aa''). GlyphAdvance example_face c \<noteq> None"
    by (simp add: range_runes_aa example_face_def)
  have m: "MeasureString example_face 4 ''aa'' = Inr 1280"
    by (simp add: MeasureString_def range_runes_aa example_face_def)
  have a: "GlyphAdvance example_face 97 = Some 640" by (simp add: example_face_def)
  from MeasureString_sum [OF t, of example_face 4] g
  have e1: "MeasureString example_face 4 ''aa'' =
      Inr (glyph_advances example_face (range_runes ''aa'') + kern_sum example_face (range_runes ''aa''))"
    and e2: "MeasureString example_face 4 ''aa'' = Inr (spec_advance example_face (range_runes ''aa''))"
    by blast+
  from e1 m have "glyph_advances example_face (range_runes ''aa'') +
      kern_sum example_face (range_runes ''aa'') = 1280" by simp
  moreover from e2 m have "spec_advance example_face (range_runes ''aa'') = 1280" by simp
  ultimately show ?thesis using t a m range_runes_aa by blast
qed

text \<open>
  The string \<open>ab\<close>: \<open>b\<close> has no glyph, and its kerning with \<open>a\<close> is part of the measured
  width, which the specification's sum leaves out.
\<close>

theorem MeasureString_missing_glyph_counterexample:
  "9 \<notin> set (range_runes ''ab'') \<and>
   MeasureString example_face 4 ''ab'' = Inr 704 \<and>
   spec_advance example_face (range_runes ''ab'') = 640 \<and>
   MeasureString example_face 4 ''ab'' \<noteq> Inr (spec_advance example_face (range_runes ''ab''))"
  by (simp add: MeasureString_def range_runes_ab example_face_def spec_advance_def rendered_def
      glyph_advances_def pair_kerns_def)

section \<open>Drawing and measuring\<close>

lemma DrawString_loop_measure:
  assumes "consistent_Face f"
  shows "Face d = f \<Longrightarrow> 9 \<notin> set cs \<or> x0 = 0 \<Longrightarrow> fst (Dot d) = x0 + adv \<Longrightarrow>
    same_advance x0 (MeasureString_loop f tw cs p adv) (DrawString_loop tw cs p d)"
proof (induction cs arbitrary: p adv d)
  case Nil
  then show ?case by (simp add: same_advance_def)
next
  case (Cons c cs)
  define adv1 where "adv1 = (if 0 \<le> p then adv + Kern f p c else adv)"
  define d1 where "d1 = (if 0 \<le> p then d\<lparr>Dot := (fst (Dot d) + Kern (Face d) p c, snd (Dot d))\<rparr> else d)"
  have d1: "Face d1 = f" "fst (Dot d1) = x0 + adv1"
    using Cons.prems by (simp_all add: d1_def adv1_def)
  have tl: "9 \<notin> set cs \<or> x0 = 0" using Cons.prems(2) by auto
  have M: "MeasureString_loop f tw (c # cs) p adv =
    (if c = 9 then
       (case tabStop f tw adv1 of
          Inl e \<Rightarrow> Inl e
        | Inr advance2 \<Rightarrow> MeasureString_loop f tw cs c advance2)
     else
       (case GlyphAdvance f c of
          None \<Rightarrow> MeasureString_loop f tw cs p adv1
        | Some a \<Rightarrow> MeasureString_loop f tw cs c (adv1 + a)))"
    unfolding adv1_def by (simp add: Let_def)
  have D: "DrawString_loop tw (c # cs) p d =
    (if c = 9 then
       (case tabStop (Face d1) tw (fst (Dot d1)) of
          Inl e \<Rightarrow> Inl e
        | Inr x \<Rightarrow> DrawString_loop tw cs c (d1\<lparr>Dot := (x, snd (Dot d1))\<rparr>))
     else
       (case Glyph (Face d1) (Dot d1) c of
          None \<Rightarrow> DrawString_loop tw cs p d1
        | Some (g, a) \<Rightarrow>
            DrawString_loop tw cs c
              (d1\<lparr>Dst := Dst d1 @ [g], Dot := (fst (Dot d1) + a, snd (Dot d1))\<rparr>)))"
    unfolding d1_def by (simp add: Let_def)
  show ?case
  proof (cases "c = 9")
    case True
    then have x0: "x0 = 0" using Cons.prems(2) by simp
    show ?thesis
    proof (cases "tabStop f tw adv1")
      case (Inl e)
      then show ?thesis using True d1 x0
        unfolding M D by (simp add: same_advance_def)
    next
      case (Inr x)
      have "same_advance x0 (MeasureString_loop f tw cs c x)
          (DrawString_loop tw cs c (d1\<lparr>Dot := (x, snd (Dot d1))\<rparr>))"
        using d1 tl x0 by (intro Cons.IH) simp_all
      then show ?thesis using True d1 x0 Inr
        unfolding M D by simp
    qed
  next
    case False
    show ?thesis
    proof (cases "Glyph f (Dot d1) c")
      case None
      then have ga: "GlyphAdvance f c = None"
        using assms by (metis consistent_Face_def option.map_disc_iff)
      have "same_advance x0 (MeasureString_loop f tw cs p adv1) (DrawString_loop tw cs p d1)"
        using d1 tl by (intro Cons.IH) simp_all
      then show ?thesis using False d1 None ga
        unfolding M D by simp
    next
      case (Some ga)
      obtain g a where ga: "ga = (g, a)" by (cases ga)
      have adv: "GlyphAdvance f c = Some a"
        using assms Some ga unfolding consistent_Face_def
        by (metis option.simps(9) snd_conv)
      have "same_advance x0 (MeasureString_loop f tw cs c (adv1 + a))
          (DrawString_loop tw cs c
             (d1\<lparr>Dst := Dst d1 @ [g], Dot := (fst (Dot d1) + a, snd (Dot d1))\<rparr>))"
        using d1 tl by (intro Cons.IH) simp_all
      then show ?thesis using False d1 Some ga adv
        unfolding M D by simp
    qed
  qed
qed

text \<open>
  Claim C8, as the code has it. For a consistent face, and a string with no tab or a pen
  that starts at \<open>x = 0\<close>, \<open>DrawString\<close> ends as \<open>MeasureString\<close> does: with the same panic, or
  with the pen advanced by the measured width (in 32-bit arithmetic).
\<close>

theorem DrawString_advance:
  assumes "consistent_Face (Face d)" and "9 \<notin> set (range_runes s) \<or> fst (Dot d) = 0"
  shows "case MeasureString (Face d) tw s of
       Inl e \<Rightarrow> DrawString tw d s = Inl e
     | Inr a \<Rightarrow> (\<exists>d'. DrawString tw d s = Inr d' \<and> fst (Dot d') - fst (Dot d) = a)"
proof -
  have "same_advance (fst (Dot d)) (MeasureString_loop (Face d) tw (range_runes s) (- 1) 0)
      (DrawString_loop tw (range_runes s) (- 1) d)"
  proof (cases "9 \<in> set (range_runes s)")
    case True
    then have z: "fst (Dot d) = 0" using assms(2) by simp
    show ?thesis using z by (intro DrawString_loop_measure [OF assms(1)]) simp_all
  next
    case False
    then show ?thesis by (intro DrawString_loop_measure [OF assms(1)]) simp_all
  qed
  then show ?thesis
    by (auto simp: MeasureString_def DrawString_def same_advance_def split: sum.splits)
qed

text \<open>The theorem at the string \<open>aa\<close>, drawn from one pixel right of the origin.\<close>

theorem DrawString_advance_witness:
  "consistent_Face (Face example_drawer) \<and> 9 \<notin> set (range_runes ''aa'') \<and>
   MeasureString (Face example_drawer) 4 ''aa'' = Inr 1280 \<and>
   (\<exists>d'. DrawString 4 example_drawer ''aa'' = Inr d' \<and> fst (Dot d') - fst (Dot example_drawer) = 1280)"
proof -
  have c: "consistent_Face (Face example_drawer)"
    by (simp add: consistent_Face_def example_drawer_def example_face_def)
  have t: "9 \<notin> set (range_runes ''aa'') \<or> fst (Dot example_drawer) = 0"
    by (simp add: range_runes_aa)
  have m: "MeasureString (Face example_drawer) 4 ''aa'' = Inr 1280"
    by (simp add: MeasureString_def range_runes_aa example_face_def example_drawer_def)
  from DrawString_advance [OF c t, of 4] m show ?thesis
    using c by (simp add: range_runes_aa)
qed

text \<open>
  A tab drawn from one pixel right of the origin: the pen moves to the tab stop at 256,
  an advance of 192, and the measured width is 256.
\<close>

lemma range_runes_tab: "range_runes [CHR 0x09] = [9]"
  by (simp add: range_runes_Cons)

theorem DrawString_tab_counterexample:
  "consistent_Face (Face example_drawer) \<and>
   MeasureString (Face example_drawer) 4 [CHR 0x09] = Inr 256 \<and>
   (\<exists>d'. DrawString 4 example_drawer [CHR 0x09] = Inr d' \<and>
        fst (Dot d') - fst (Dot example_drawer) = 192) \<and>
   \<not> (\<exists>d'. DrawString 4 example_drawer [CHR 0x09] = Inr d' \<and>
        MeasureString (Face example_drawer) 4 [CHR 0x09] =
          Inr (fst (Dot d') - fst (Dot example_drawer)))"
  by (simp add: consistent_Face_def MeasureString_def DrawString_def range_runes_tab tabStop_def
      example_drawer_def example_face_def div32_def signed_divide_int_def)

section \<open>Writes to the buffer\<close>

lemma SetStyle_rows: "0 \<le> row \<Longrightarrow> 0 \<le> col \<Longrightarrow> nat row < length (Content (SetStyle t row col style))"
  by (simp add: SetStyle_def Let_def append_rows_eq)

lemma SetStyle_in_range:
  assumes "0 \<le> row" "0 \<le> col" "nat row < length (Content t)" "nat col < length (Content t ! nat row)"
  shows "Style (Row (SetStyle t row col style) row ! nat col) = style"
    and "length (Row (SetStyle t row col style) row) = length (Content t ! nat row)"
proof -
  have a: "\<not> int (length (Content t)) \<le> row" "\<not> int (length (Content t ! nat row)) \<le> col"
    using assms by linarith+
  have b: "append_rows (Content t) row = Content t"
    using a by (simp add: append_rows_eq)
  have c: "append_cells (Content t ! nat row) col = Content t ! nat row"
    using a by (simp add: append_cells_eq)
  show "Style (Row (SetStyle t row col style) row ! nat col) = style"
    using assms a by (simp add: SetStyle_def Row_def Let_def b c)
  show "length (Row (SetStyle t row col style) row) = length (Content t ! nat row)"
    using assms a by (simp add: SetStyle_def Row_def Let_def b c)
qed

lemma SetStyle_beyond_row:
  assumes "0 \<le> row" "0 \<le> col" "nat row < length (Content t)" "length (Content t ! nat row) \<le> nat col"
  shows "SetStyle t row col style = t"
proof -
  have a: "\<not> int (length (Content t)) \<le> row" "int (length (Content t ! nat row)) \<le> col"
    using assms by linarith+
  have b: "append_rows (Content t) row = Content t"
    using a by (simp add: append_rows_eq)
  show ?thesis using assms a by (simp add: SetStyle_def Let_def b)
qed

text \<open>
  Claim C1 at the empty grid: after \<open>SetStyle(0, 0, style)\<close> the buffer has its row 0, but
  the row has no cell, and \<open>Row(0)\<close> is empty: the cell that got the style is not in the
  buffer.
\<close>

theorem SetStyle_empty_grid:
  "Content (SetStyle NewTextGrid 0 0 TextGridStyleWhitespace) = [[]] \<and>
   Row (SetStyle NewTextGrid 0 0 TextGridStyleWhitespace) 0 = []"
  by (simp add: SetStyle_def NewTextGrid_def Row_def Let_def append_rows_eq)

text \<open>
  Claim C3 at the empty grid: \<open>SetStyleRange(0, 0, 1, 0, style)\<close> indexes row 0 of a buffer
  with no row, and panics.
\<close>

theorem SetStyleRange_panics:
  "SetStyleRange NewTextGrid 0 0 1 0 TextGridStyleWhitespace = Some (Inl IndexOutOfRange)"
  by (simp add: SetStyleRange_def SetStyleRange_row.simps NewTextGrid_def)

section \<open>Negative indices\<close>


















section \<open>Encoding and decoding runes\<close>

lemma of_char_of_nat: "n < 256 \<Longrightarrow> (of_char (char_of n) :: nat) = n"
  by simp

lemma decode_bytes_1:
  "s0 < 128 \<Longrightarrow> decode_rune (char_of s0 # rest) = (int s0, 1)"
  by (simp add: Let_def)

lemma decode_bytes_2:
  assumes "194 \<le> s0" "s0 < 224" "128 \<le> s1" "s1 \<le> 191"
  shows "decode_rune (char_of s0 # char_of s1 # rest) = (int (s0 mod 32 * 64 + s1 mod 64), 2)"
proof -
  have "(of_char (char_of s0) :: nat) = s0" "(of_char (char_of s1) :: nat) = s1"
    using assms by (simp_all add: of_char_of_nat)
  then show ?thesis using assms by (simp add: Let_def del: of_char_of)
qed

lemma decode_bytes_3:
  assumes "224 \<le> s0" "s0 < 240" "128 \<le> s1" "s1 \<le> 191" "s0 = 224 \<longrightarrow> 160 \<le> s1"
    "s0 = 237 \<longrightarrow> s1 \<le> 159" "128 \<le> s2" "s2 \<le> 191"
  shows "decode_rune (char_of s0 # char_of s1 # char_of s2 # rest) =
    (int (s0 mod 16 * 4096 + s1 mod 64 * 64 + s2 mod 64), 3)"
proof -
  have "(of_char (char_of s0) :: nat) = s0" "(of_char (char_of s1) :: nat) = s1"
    "(of_char (char_of s2) :: nat) = s2"
    using assms by (simp_all add: of_char_of_nat)
  then show ?thesis using assms by (auto simp add: Let_def simp del: of_char_of)
qed

lemma decode_bytes_4:
  assumes "240 \<le> s0" "s0 \<le> 244" "128 \<le> s1" "s1 \<le> 191" "s0 = 240 \<longrightarrow> 144 \<le> s1"
    "s0 = 244 \<longrightarrow> s1 \<le> 143" "128 \<le> s2" "s2 \<le> 191" "128 \<le> s3" "s3 \<le> 191"
  shows "decode_rune (char_of s0 # char_of s1 # char_of s2 # char_of s3 # rest) =
    (int (s0 mod 8 * 262144 + s1 mod 64 * 4096 + s2 mod 64 * 64 + s3 mod 64), 4)"
proof -
  have "(of_char (char_of s0) :: nat) = s0" "(of_char (char_of s1) :: nat) = s1"
    "(of_char (char_of s2) :: nat) = s2" "(of_char (char_of s3) :: nat) = s3"
    using assms by (simp_all add: of_char_of_nat)
  then show ?thesis using assms by (auto simp add: Let_def simp del: of_char_of)
qed

lemma encode_rune_1: "0 \<le> r \<Longrightarrow> r \<le> 127 \<Longrightarrow> encode_rune r = [char_of (nat r)]"
  by (simp add: encode_rune_def Let_def)

lemma encode_rune_2:
  "128 \<le> r \<Longrightarrow> r \<le> 2047 \<Longrightarrow>
    encode_rune r = [char_of (192 + nat r div 64), char_of (128 + nat r mod 64)]"
  by (simp add: encode_rune_def Let_def)

lemma encode_rune_3:
  "2048 \<le> r \<Longrightarrow> r \<le> 65535 \<Longrightarrow> \<not> (55296 \<le> r \<and> r \<le> 57343) \<Longrightarrow>
    encode_rune r =
      [char_of (224 + nat r div 4096), char_of (128 + nat r div 64 mod 64), char_of (128 + nat r mod 64)]"
  by (auto simp add: encode_rune_def Let_def)

lemma encode_rune_4:
  "65536 \<le> r \<Longrightarrow> r \<le> 1114111 \<Longrightarrow>
    encode_rune r =
      [char_of (240 + nat r div 262144), char_of (128 + nat r div 4096 mod 64),
       char_of (128 + nat r div 64 mod 64), char_of (128 + nat r mod 64)]"
  by (simp add: encode_rune_def Let_def)

lemma digits_64_3:
  fixes n :: nat
  shows "n = n div 4096 * 4096 + n div 64 mod 64 * 64 + n mod 64"
proof -
  have "n = n div 64 * 64 + n mod 64" by simp
  moreover have "n div 64 = n div 64 div 64 * 64 + n div 64 mod 64" by simp
  moreover have "n div 64 div 64 = n div 4096" by (simp add: div_mult2_eq)
  ultimately show ?thesis by linarith
qed

lemma digits_64_4:
  fixes n :: nat
  shows "n = n div 262144 * 262144 + n div 4096 mod 64 * 4096 + n div 64 mod 64 * 64 + n mod 64"
proof -
  have "n = n div 4096 * 4096 + n div 64 mod 64 * 64 + n mod 64" by (rule digits_64_3)
  moreover have "n div 4096 = n div 4096 div 64 * 64 + n div 4096 mod 64" by simp
  moreover have "n div 4096 div 64 = n div 262144" by (simp add: div_mult2_eq)
  ultimately show ?thesis by linarith
qed

lemma encode_form_2:
  assumes "128 \<le> r" "r \<le> 2047"
  shows "\<exists>a b. encode_rune r = [char_of (192 + a), char_of (128 + b)] \<and>
    2 \<le> a \<and> a < 32 \<and> b < 64 \<and> r = int (a * 64 + b)"
proof -
  define n where "n = nat r"
  define a where "a = n div 64"
  define b where "b = n mod 64"
  have n: "int n = r" "128 \<le> n" "n \<le> 2047" using assms unfolding n_def by linarith+
  have ab0: "n = a * 64 + b" "b < 64" by (simp_all add: a_def b_def)
  have ab: "2 \<le> a" "a < 32" using ab0 n(2,3) by linarith+
  have "encode_rune r = [char_of (192 + a), char_of (128 + b)]"
    unfolding a_def b_def n_def using assms by (rule encode_rune_2)
  moreover have "r = int (a * 64 + b)" using ab0(1) n(1) by simp
  ultimately show ?thesis using ab ab0(2) by blast
qed

lemma encode_form_3:
  assumes "2048 \<le> r" "r \<le> 65535" "\<not> (55296 \<le> r \<and> r \<le> 57343)"
  shows "\<exists>a b c. encode_rune r = [char_of (224 + a), char_of (128 + b), char_of (128 + c)] \<and>
    a < 16 \<and> b < 64 \<and> c < 64 \<and> (a = 0 \<longrightarrow> 32 \<le> b) \<and> (a = 13 \<longrightarrow> b < 32) \<and>
    r = int (a * 4096 + b * 64 + c)"
proof -
  define n where "n = nat r"
  define a where "a = n div 4096"
  define b where "b = n div 64 mod 64"
  define c where "c = n mod 64"
  have n: "int n = r" "2048 \<le> n" "n \<le> 65535" "\<not> (55296 \<le> n \<and> n \<le> 57343)"
    using assms unfolding n_def by linarith+
  have ab1: "n = a * 4096 + b * 64 + c"
    unfolding a_def b_def c_def by (rule digits_64_3)
  have ab2: "c < 64" "b < 64" by (simp_all add: b_def c_def)
  have ab3: "a < 16" "a = 0 \<longrightarrow> 32 \<le> b" "a = 13 \<longrightarrow> b < 32"
    using ab1 ab2 n(2,3,4) by linarith+
  have "encode_rune r = [char_of (224 + a), char_of (128 + b), char_of (128 + c)]"
    unfolding a_def b_def c_def n_def using assms by (rule encode_rune_3)
  moreover have "r = int (a * 4096 + b * 64 + c)" using ab1 n(1) by simp
  ultimately show ?thesis using ab2 ab3 by blast
qed

lemma encode_form_4:
  assumes "65536 \<le> r" "r \<le> 1114111"
  shows "\<exists>a b c d. encode_rune r =
      [char_of (240 + a), char_of (128 + b), char_of (128 + c), char_of (128 + d)] \<and>
    a \<le> 4 \<and> b < 64 \<and> c < 64 \<and> d < 64 \<and> (a = 0 \<longrightarrow> 16 \<le> b) \<and> (a = 4 \<longrightarrow> b < 16) \<and>
    r = int (a * 262144 + b * 4096 + c * 64 + d)"
proof -
  define n where "n = nat r"
  define a where "a = n div 262144"
  define b where "b = n div 4096 mod 64"
  define c where "c = n div 64 mod 64"
  define d where "d = n mod 64"
  have n: "int n = r" "65536 \<le> n" "n \<le> 1114111" using assms unfolding n_def by linarith+
  have ab1: "n = a * 262144 + b * 4096 + c * 64 + d"
    unfolding a_def b_def c_def d_def by (rule digits_64_4)
  have ab2: "d < 64" "c < 64" "b < 64" by (simp_all add: b_def c_def d_def)
  have ab3: "a \<le> 4" "a = 0 \<longrightarrow> 16 \<le> b" "a = 4 \<longrightarrow> b < 16"
    using ab1 ab2 n(2,3) by linarith+
  have "encode_rune r = [char_of (240 + a), char_of (128 + b), char_of (128 + c), char_of (128 + d)]"
    unfolding a_def b_def c_def d_def n_def using assms by (rule encode_rune_4)
  moreover have "r = int (a * 262144 + b * 4096 + c * 64 + d)" using ab1 n(1) by simp
  ultimately show ?thesis using ab2 ab3 by blast
qed

lemma mod_shift: "b < m \<Longrightarrow> (k * m + b) mod m = (b :: nat)"
  by simp

lemma lead2_mod: "a < 32 \<Longrightarrow> (192 + a) mod 32 = (a :: nat)"
  using mod_shift [of a 32 6] by simp

lemma lead3_mod: "a < 16 \<Longrightarrow> (224 + a) mod 16 = (a :: nat)"
  using mod_shift [of a 16 14] by simp

lemma lead4_mod: "a \<le> 4 \<Longrightarrow> (240 + a) mod 8 = (a :: nat)"
  using mod_shift [of a 8 30] by simp

lemma cont_mod: "b < 64 \<Longrightarrow> (128 + b) mod 64 = (b :: nat)"
  using mod_shift [of b 64 2] by simp

lemma decode_encode_1:
  assumes "0 \<le> r" "r \<le> 127"
  shows "decode_rune (encode_rune r @ rest) = (r, 1)"
  using assms by (simp add: encode_rune_1 decode_bytes_1 del: decode_rune.simps)

lemma decode_encode_2:
  assumes "128 \<le> r" "r \<le> 2047"
  shows "decode_rune (encode_rune r @ rest) = (r, 2)"
proof -
  from encode_form_2 [OF assms] obtain a b where
    e: "encode_rune r = [char_of (192 + a), char_of (128 + b)]"
    and ab: "2 \<le> a" "a < 32" "b < 64" and r: "r = int (a * 64 + b)" by blast
  have m: "(192 + a) mod 32 = a" "(128 + b) mod 64 = b"
    using ab by (simp_all add: lead2_mod cont_mod)
  have "decode_rune (char_of (192 + a) # char_of (128 + b) # rest) =
      (int ((192 + a) mod 32 * 64 + (128 + b) mod 64), 2)"
    using ab by (intro decode_bytes_2) simp_all
  then show ?thesis unfolding e m using r by (simp del: decode_rune.simps)
qed

lemma decode_encode_3:
  assumes "2048 \<le> r" "r \<le> 65535" "\<not> (55296 \<le> r \<and> r \<le> 57343)"
  shows "decode_rune (encode_rune r @ rest) = (r, 3)"
proof -
  from encode_form_3 [OF assms] obtain a b c where
    e: "encode_rune r = [char_of (224 + a), char_of (128 + b), char_of (128 + c)]"
    and ab: "a < 16" "b < 64" "c < 64" "a = 0 \<longrightarrow> 32 \<le> b" "a = 13 \<longrightarrow> b < 32"
    and r: "r = int (a * 4096 + b * 64 + c)" by blast
  have m: "(224 + a) mod 16 = a" "(128 + b) mod 64 = b" "(128 + c) mod 64 = c"
    using ab(1-3) by (simp_all add: lead3_mod cont_mod)
  have "decode_rune (char_of (224 + a) # char_of (128 + b) # char_of (128 + c) # rest) =
      (int ((224 + a) mod 16 * 4096 + (128 + b) mod 64 * 64 + (128 + c) mod 64), 3)"
    using ab by (intro decode_bytes_3) auto
  then show ?thesis unfolding e m using r by (simp del: decode_rune.simps)
qed

lemma decode_encode_4:
  assumes "65536 \<le> r" "r \<le> 1114111"
  shows "decode_rune (encode_rune r @ rest) = (r, 4)"
proof -
  from encode_form_4 [OF assms] obtain a b c d where
    e: "encode_rune r = [char_of (240 + a), char_of (128 + b), char_of (128 + c), char_of (128 + d)]"
    and ab: "a \<le> 4" "b < 64" "c < 64" "d < 64" "a = 0 \<longrightarrow> 16 \<le> b" "a = 4 \<longrightarrow> b < 16"
    and r: "r = int (a * 262144 + b * 4096 + c * 64 + d)" by blast
  have m: "(240 + a) mod 8 = a" "(128 + b) mod 64 = b" "(128 + c) mod 64 = c" "(128 + d) mod 64 = d"
    using ab(1-4) by (simp_all add: lead4_mod cont_mod)
  have "decode_rune (char_of (240 + a) # char_of (128 + b) # char_of (128 + c) # char_of (128 + d) # rest) =
      (int ((240 + a) mod 8 * 262144 + (128 + b) mod 64 * 4096 + (128 + c) mod 64 * 64 +
        (128 + d) mod 64), 4)"
    using ab by (intro decode_bytes_4) auto
  then show ?thesis unfolding e m using r by (simp del: decode_rune.simps)
qed

lemma char_of_high: "128 \<le> n \<Longrightarrow> n < 256 \<Longrightarrow> char_of (n::nat) \<noteq> CHR 0x0A"
proof
  assume a: "128 \<le> n" "n < 256" "char_of n = CHR 0x0A"
  have "(of_char (char_of n) :: nat) = of_char (CHR 0x0A)" using a(3) by simp
  then show False using a(1,2) by simp
qed

lemma newline_in_encode:
  assumes "valid_rune r"
  shows "CHR 0x0A \<in> set (encode_rune r) \<longleftrightarrow> r = 10"
proof -
  consider "0 \<le> r \<and> r \<le> 127" | "128 \<le> r \<and> r \<le> 2047"
    | "2048 \<le> r \<and> r \<le> 65535 \<and> \<not> (55296 \<le> r \<and> r \<le> 57343)" | "65536 \<le> r \<and> r \<le> 1114111"
    using assms unfolding valid_rune_def by linarith
  then show ?thesis
  proof cases
    case 1
    have "char_of (nat r) = CHR 0x0A \<longleftrightarrow> (of_char (char_of (nat r)) :: nat) = of_char (CHR 0x0A)"
      by (metis char_of_char)
    moreover have "nat r < 256" using 1 by linarith
    then have "nat r mod 256 = nat r" by simp
    ultimately have "char_of (nat r) = CHR 0x0A \<longleftrightarrow> nat r = 10" by simp
    then have "char_of (nat r) = CHR 0x0A \<longleftrightarrow> r = 10" using 1 by linarith
    then show ?thesis using 1 by (auto simp: encode_rune_1)
  next
    case 2
    then obtain a b where "encode_rune r = [char_of (192 + a), char_of (128 + b)]"
      "2 \<le> a" "a < 32" "b < 64" "r = int (a * 64 + b)" using encode_form_2 [of r] by blast
    then show ?thesis using char_of_high [of "192 + a"] char_of_high [of "128 + b"] by auto
  next
    case 3
    then obtain a b c where "encode_rune r = [char_of (224 + a), char_of (128 + b), char_of (128 + c)]"
      "a < 16" "b < 64" "c < 64" "r = int (a * 4096 + b * 64 + c)" "a = 0 \<longrightarrow> 32 \<le> b"
      using encode_form_3 [of r] by blast
    then show ?thesis
      using char_of_high [of "224 + a"] char_of_high [of "128 + b"] char_of_high [of "128 + c"] 3
      by auto
  next
    case 4
    then obtain a b c d :: nat where
      "encode_rune r = [char_of (240 + a), char_of (128 + b), char_of (128 + c), char_of (128 + d)]"
      "a \<le> 4" "b < 64" "c < 64" "d < 64"
      using encode_form_4 [of r] by blast
    then show ?thesis
      using char_of_high [of "240 + a"] char_of_high [of "128 + b"] char_of_high [of "128 + c"]
        char_of_high [of "128 + d"] 4
      by auto
  qed
qed

lemma Split_not_Nil: "Split s \<noteq> []"
  by (induction s) (auto split: list.splits)

lemma join_lines_Split: "join_lines (Split s) = s"
proof (induction s)
  case Nil
  then show ?case by simp
next
  case (Cons c cs)
  obtain p ps where sp: "Split cs = p # ps" using Split_not_Nil [of cs] by (cases "Split cs") auto
  show ?case using Cons sp by auto
qed

lemma Split_append_no_newline:
  "CHR 0x0A \<notin> set xs \<Longrightarrow> Split (xs @ ys) = (xs @ hd (Split ys)) # tl (Split ys)"
proof (induction xs)
  case Nil
  then show ?case using Split_not_Nil [of ys] by simp
next
  case (Cons x xs)
  then show ?case by auto
qed

lemma decode_encode:
  assumes "valid_rune r"
  shows "decode_rune (encode_rune r @ rest) = (r, length (encode_rune r))"
proof -
  consider "0 \<le> r \<and> r \<le> 127" | "128 \<le> r \<and> r \<le> 2047"
    | "2048 \<le> r \<and> r \<le> 65535 \<and> \<not> (55296 \<le> r \<and> r \<le> 57343)" | "65536 \<le> r \<and> r \<le> 1114111"
    using assms unfolding valid_rune_def by linarith
  then show ?thesis
  proof cases
    case 1
    then show ?thesis using decode_encode_1 [of r rest] by (simp add: encode_rune_1)
  next
    case 2
    then show ?thesis using decode_encode_2 [of r rest] by (simp add: encode_rune_2)
  next
    case 3
    then show ?thesis using decode_encode_3 [of r rest] by (simp add: encode_rune_3)
  next
    case 4
    then show ?thesis using decode_encode_4 [of r rest] by (simp add: encode_rune_4)
  qed
qed

lemma encode_rune_not_Nil: "encode_rune r \<noteq> []"
  by (simp add: encode_rune_def Let_def)

lemma range_runes_encode:
  assumes "valid_rune r"
  shows "range_runes (encode_rune r @ rest) = r # range_runes rest"
proof -
  obtain c cs where e: "encode_rune r @ rest = c # cs"
    using encode_rune_not_Nil [of r] by (cases "encode_rune r @ rest") auto
  have "range_runes (c # cs) = fst (decode_rune (c # cs)) # range_runes (drop (snd (decode_rune (c # cs))) (c # cs))"
    by (rule range_runes_Cons)
  then show ?thesis unfolding e [symmetric] decode_encode [OF assms] by simp
qed

lemma range_runes_utf8: "list_all valid_rune rs \<Longrightarrow> range_runes (utf8 rs) = rs"
  by (induction rs) (simp_all add: utf8_def range_runes_encode)

lemma Text_rows_join: "Text_rows rws = join_lines (map row_text rws)"
  by (induction rws) (simp_all add: row_text_def)

lemma row_text_cells: "row_text (map (\<lambda>r. \<lparr>Rune = r, Style = None\<rparr>) rs) = utf8 rs"
  by (simp add: row_text_def utf8_def comp_def)

lemma utf8_append: "utf8 (xs @ ys) = utf8 xs @ utf8 ys"
  by (simp add: utf8_def)

lemma Split_utf8_pieces:
  "list_all valid_rune rs \<Longrightarrow> \<forall>p\<in>set (Split (utf8 rs)). \<exists>rs'. list_all valid_rune rs' \<and> p = utf8 rs'"
proof (induction rs)
  case Nil
  then show ?case by (auto simp: utf8_def intro: exI [of _ "[]"])
next
  case (Cons r rs)
  then have v: "valid_rune r" and vs: "list_all valid_rune rs" by simp_all
  have IH: "\<forall>p\<in>set (Split (utf8 rs)). \<exists>rs'. list_all valid_rune rs' \<and> p = utf8 rs'"
    using Cons.IH vs by simp
  obtain p ps where sp: "Split (utf8 rs) = p # ps"
    using Split_not_Nil [of "utf8 rs"] by (cases "Split (utf8 rs)") auto
  from IH sp obtain rs0 where rs0: "list_all valid_rune rs0" "p = utf8 rs0" by auto
  have u: "utf8 (r # rs) = encode_rune r @ utf8 rs" by (simp add: utf8_def)
  show ?case
  proof (cases "r = 10")
    case True
    have "char_of (of_char (CHR 0x0A) :: nat) = CHR 0x0A" by (rule char_of_char)
    then have "char_of (10 :: nat) = CHR 0x0A" by simp
    then have "encode_rune r = [CHR 0x0A]" using True by (simp add: encode_rune_def)
    then have "Split (utf8 (r # rs)) = [] # Split (utf8 rs)" unfolding u by simp
    moreover have "\<exists>rs'. list_all valid_rune rs' \<and> [] = utf8 rs'"
      by (rule exI [of _ "[]"]) (simp add: utf8_def)
    ultimately show ?thesis using IH by auto
  next
    case False
    then have "CHR 0x0A \<notin> set (encode_rune r)" using newline_in_encode [OF v] by simp
    then have "Split (utf8 (r # rs)) = (encode_rune r @ p) # ps"
      unfolding u using sp by (simp add: Split_append_no_newline)
    moreover have "\<exists>rs'. list_all valid_rune rs' \<and> encode_rune r @ p = utf8 rs'"
      using v rs0 by (intro exI [of _ "r # rs0"]) (simp add: utf8_def)
    ultimately show ?thesis using IH sp by auto
  qed
qed

section \<open>The text of the buffer\<close>

text \<open>
  Claim C9, as the code has it. For every sequence of Unicode scalar values, with \<open>s\<close> its
  UTF-8 encoding (carriage returns or not), \<open>Text\<close> after \<open>SetText s\<close> returns \<open>s\<close>, and the
  rows of the buffer spell the lines of \<open>s\<close>.
\<close>

theorem SetText_Text_roundtrip:
  assumes "list_all valid_rune rs"
  shows "Text (SetText t (utf8 rs)) = utf8 rs \<and>
    map row_text (Content (SetText t (utf8 rs))) = Split (utf8 rs)"
proof -
  have p: "\<forall>p\<in>set (Split (utf8 rs)). utf8 (range_runes p) = p"
    using Split_utf8_pieces [OF assms] range_runes_utf8 by auto
  have rows: "map row_text (Content (SetText t (utf8 rs))) = Split (utf8 rs)"
    using p by (simp add: SetText_def row_text_cells comp_def map_idI)
  then have "Text (SetText t (utf8 rs)) = join_lines (Split (utf8 rs))"
    by (simp add: Text_def Text_rows_join)
  then show ?thesis using rows by (simp add: join_lines_Split)
qed

text \<open>The theorem at the text \<open>a\<close>, newline, \<open>U+21B5\<close>.\<close>

theorem SetText_Text_roundtrip_witness:
  "list_all valid_rune [97, 10, 8629] \<and>
   Text (SetText NewTextGrid (utf8 [97, 10, 8629])) = utf8 [97, 10, 8629] \<and>
   map row_text (Content (SetText NewTextGrid (utf8 [97, 10, 8629]))) = Split (utf8 [97, 10, 8629])"
proof -
  have v: "list_all valid_rune [97, 10, 8629]" by (simp add: valid_rune_def)
  from SetText_Text_roundtrip [OF v, of NewTextGrid] show ?thesis using v by blast
qed

text \<open>
  The string of the one byte \<open>0xFF\<close>, which is no UTF-8 and holds no carriage return: the
  loop over its runes reads \<open>U+FFFD\<close>, and \<open>Text\<close> returns the three bytes of that rune.
\<close>

lemma range_runes_FF: "range_runes [CHR 0xFF] = [65533]"
  by (simp add: range_runes_Cons RuneError_def)

theorem SetText_Text_invalid_utf8_counterexample:
  "CHR 0x0D \<notin> set [CHR 0xFF] \<and>
   Text (SetText NewTextGrid [CHR 0xFF]) = [char_of (239 :: nat), char_of (191 :: nat), char_of (189 :: nat)] \<and>
   Text (SetText NewTextGrid [CHR 0xFF]) \<noteq> [CHR 0xFF]"
  by (simp add: SetText_def Text_def NewTextGrid_def range_runes_FF encode_rune_def)

section \<open>SetText replaces the buffer\<close>

lemma decode_rune_width_le: "s \<noteq> [] \<Longrightarrow> snd (decode_rune s) \<le> length s"
  by (cases s) (auto simp: Let_def Suc_le_eq)

lemma decode_rune_before_newline:
  assumes "xs \<noteq> []" "CHR 0x0A \<notin> set xs"
  shows "decode_rune (xs @ CHR 0x0A # ys) = decode_rune xs"
proof -
  consider c0 where "xs = [c0]" | c0 c1 where "xs = [c0, c1]" | c0 c1 c2 where "xs = [c0, c1, c2]"
    | c0 c1 c2 c3 zs where "xs = c0 # c1 # c2 # c3 # zs"
    using assms(1) by (metis list.exhaust)
  then show ?thesis
  proof cases
    case 1
    then show ?thesis by (auto simp: Let_def)
  next
    case 2
    then show ?thesis by (auto simp: Let_def)
  next
    case 3
    then show ?thesis by (auto simp: Let_def)
  next
    case 4
    then show ?thesis by (simp add: Let_def)
  qed
qed

lemma range_runes_newline:
  "CHR 0x0A \<notin> set xs \<Longrightarrow>
    range_runes (xs @ CHR 0x0A # ys) = range_runes xs @ 10 # range_runes ys"
proof (induction xs rule: length_induct)
  case (1 xs)
  show ?case
  proof (cases xs)
    case Nil
    then show ?thesis by (simp add: range_runes_Cons)
  next
    case (Cons c cs)
    define w where "w = snd (decode_rune xs)"
    have ne: "xs \<noteq> []" using Cons by simp
    have w: "0 < w" "w \<le> length xs"
      using decode_rune_width [OF ne] decode_rune_width_le [OF ne] by (simp_all add: w_def)
    have d: "decode_rune (xs @ CHR 0x0A # ys) = decode_rune xs"
      using ne "1.prems" by (rule decode_rune_before_newline)
    have "range_runes (xs @ CHR 0x0A # ys) =
        fst (decode_rune xs) # range_runes (drop w (xs @ CHR 0x0A # ys))"
      using range_runes_Cons [of c "cs @ CHR 0x0A # ys"] d Cons by (simp add: w_def)
    also have "drop w (xs @ CHR 0x0A # ys) = drop w xs @ CHR 0x0A # ys"
      using w(2) by simp
    also have "range_runes (drop w xs @ CHR 0x0A # ys) =
        range_runes (drop w xs) @ 10 # range_runes ys"
    proof -
      have "length (drop w xs) < length xs" using w ne by simp
      moreover have "CHR 0x0A \<notin> set (drop w xs)" using "1.prems" by (auto dest: in_set_dropD)
      ultimately show ?thesis using "1.IH" by blast
    qed
    also have "fst (decode_rune xs) # (range_runes (drop w xs) @ 10 # range_runes ys) =
        range_runes xs @ 10 # range_runes ys"
      using range_runes_Cons [of c cs] Cons by (simp add: w_def)
    finally show ?thesis .
  qed
qed

lemma Split_cases:
  "(CHR 0x0A \<notin> set s \<and> Split s = [s]) \<or>
   (\<exists>p s'. s = p @ CHR 0x0A # s' \<and> CHR 0x0A \<notin> set p \<and> Split s = p # Split s')"
proof (induction s)
  case Nil
  then show ?case by simp
next
  case (Cons c cs)
  show ?case
  proof (cases "c = CHR 0x0A")
    case True
    then have "c # cs = [] @ CHR 0x0A # cs \<and> CHR 0x0A \<notin> set [] \<and> Split (c # cs) = [] # Split cs"
      by simp
    then show ?thesis by blast
  next
    case False
    from Cons.IH show ?thesis
    proof
      assume "CHR 0x0A \<notin> set cs \<and> Split cs = [cs]"
      then show ?thesis using False by simp
    next
      assume "\<exists>p s'. cs = p @ CHR 0x0A # s' \<and> CHR 0x0A \<notin> set p \<and> Split cs = p # Split s'"
      then obtain p s' where "cs = p @ CHR 0x0A # s'" "CHR 0x0A \<notin> set p" "Split cs = p # Split s'"
        by blast
      then have "c # cs = (c # p) @ CHR 0x0A # s' \<and> CHR 0x0A \<notin> set (c # p) \<and>
          Split (c # cs) = (c # p) # Split s'"
        using False by simp
      then show ?thesis by blast
    qed
  qed
qed

lemma range_runes_Split:
  "p \<in> set (Split s) \<Longrightarrow> set (range_runes p) \<subseteq> set (range_runes s)"
proof (induction s arbitrary: p rule: length_induct)
  case (1 s)
  from Split_cases [of s] show ?case
  proof
    assume "CHR 0x0A \<notin> set s \<and> Split s = [s]"
    then show ?thesis using "1.prems" by simp
  next
    assume "\<exists>q s'. s = q @ CHR 0x0A # s' \<and> CHR 0x0A \<notin> set q \<and> Split s = q # Split s'"
    then obtain q s' where s: "s = q @ CHR 0x0A # s'" and q: "CHR 0x0A \<notin> set q"
      and sp: "Split s = q # Split s'" by blast
    have r: "range_runes s = range_runes q @ 10 # range_runes s'"
      unfolding s using q by (rule range_runes_newline)
    from "1.prems" sp have "p = q \<or> p \<in> set (Split s')" by simp
    then show ?thesis
    proof
      assume "p = q"
      then show ?thesis using r by auto
    next
      assume p: "p \<in> set (Split s')"
      have "length s' < length s" using s by simp
      then have "set (range_runes p) \<subseteq> set (range_runes s')" using "1.IH" p by blast
      then show ?thesis using r by auto
    qed
  qed
qed

text \<open>
  Claim C10. \<open>SetText s\<close> replaces the whole buffer: the new buffer is the same whatever
  the grid held before, every cell of it has no style and holds a rune of \<open>s\<close> (one that the
  loop over \<open>s\<close> reads), and the two flags of the grid stay.
\<close>

theorem SetText_replaces_buffer:
  "Content (SetText t s) = Content (SetText t' s) \<and>
   LineNumbers (SetText t s) = LineNumbers t \<and> Whitespace (SetText t s) = Whitespace t \<and>
   (\<forall>row\<in>set (Content (SetText t s)). \<forall>c\<in>set row.
      Style c = None \<and> Rune c \<in> set (range_runes s))"
proof -
  have "\<forall>row\<in>set (Content (SetText t s)). \<forall>c\<in>set row.
      Style c = None \<and> Rune c \<in> set (range_runes s)"
    using range_runes_Split [of _ s] by (auto simp: SetText_def)
  then show ?thesis by (simp add: SetText_def)
qed

text \<open>The theorem at a grid with a styled cell: after \<open>SetText\<close> the style is gone.\<close>

lemma range_runes_c: "range_runes ''c'' = [99]"
  by (simp add: range_runes_Cons)

lemma styled_grid_Content:
  "Content styled_grid =
    [[\<lparr>Rune = 97, Style = TextGridStyleWhitespace\<rparr>, \<lparr>Rune = 98, Style = None\<rparr>]]"
  by (simp add: styled_grid_def SetStyle_def SetText_def NewTextGrid_def Let_def range_runes_ab
        append_rows_eq append_cells_eq)

theorem SetText_replaces_buffer_witness:
  "Style (Content styled_grid ! 0 ! 0) = TextGridStyleWhitespace \<and>
   Content (SetText styled_grid ''c'') = [[\<lparr>Rune = 99, Style = None\<rparr>]] \<and>
   Content (SetText styled_grid ''c'') = Content (SetText NewTextGrid ''c'')"
proof -
  have "Style (Content styled_grid ! 0 ! 0) = TextGridStyleWhitespace"
    by (simp add: styled_grid_Content)
  moreover have "Content (SetText NewTextGrid ''c'') = [[\<lparr>Rune = 99, Style = None\<rparr>]]"
    by (simp add: SetText_def range_runes_c)
  moreover have "Content (SetText styled_grid ''c'') = Content (SetText NewTextGrid ''c'')"
    using SetText_replaces_buffer [of styled_grid "''c''" NewTextGrid] by blast
  ultimately show ?thesis by simp
qed

section \<open>The pool of the renderer\<close>

text \<open>\<open>ensureGrid\<close> appends cells to the pool, and changes nothing else.\<close>

lemma appendTextCell_fields:
  "cols (appendTextCell r c) = cols r" "rows (appendTextCell r c) = rows r"
  "cellSize (appendTextCell r c) = cellSize r"
  "length (objects (appendTextCell r c)) = length (objects r) + 2"
  by (simp_all add: appendTextCell_def)

lemma ensureGrid_loop_fields:
  "cols (ensureGrid_loop i n r) = cols r \<and> rows (ensureGrid_loop i n r) = rows r \<and>
   cellSize (ensureGrid_loop i n r) = cellSize r"
proof (induction i n r rule: ensureGrid_loop.induct)
  case (1 i n r)
  show ?case
  proof (cases "i < n")
    case True
    then show ?thesis using "1.IH"
      by (subst (1 2 3) ensureGrid_loop.simps) (simp add: appendTextCell_fields)
  next
    case False
    then show ?thesis by (subst (1 2 3) ensureGrid_loop.simps) simp
  qed
qed

lemma ensureGrid_loop_length:
  "i = int (length (objects r)) \<Longrightarrow>
   length (objects r) \<le> length (objects (ensureGrid_loop i n r)) \<and>
   (i < n \<longrightarrow> n \<le> int (length (objects (ensureGrid_loop i n r))) \<and>
      int (length (objects (ensureGrid_loop i n r))) < n + 2) \<and>
   (n \<le> i \<longrightarrow> ensureGrid_loop i n r = r) \<and>
   (even (length (objects r)) \<longrightarrow> even (length (objects (ensureGrid_loop i n r))))"
proof (induction i n r rule: ensureGrid_loop.induct)
  case (1 i n r)
  show ?case
  proof (cases "i < n")
    case True
    have e: "ensureGrid_loop i n r = ensureGrid_loop (i + 2) n (appendTextCell r 32)"
      using True by (subst ensureGrid_loop.simps) simp
    have i2: "i + 2 = int (length (objects (appendTextCell r 32)))"
      using "1.prems" by (simp add: appendTextCell_fields)
    note IH = "1.IH" [OF True i2]
    show ?thesis
    proof (cases "i + 2 < n")
      case True
      then show ?thesis using IH \<open>i < n\<close> "1.prems" unfolding e
        by (simp add: appendTextCell_fields)
    next
      case False
      then have "ensureGrid_loop (i + 2) n (appendTextCell r 32) = appendTextCell r 32"
        using IH by simp
      then show ?thesis using False \<open>i < n\<close> "1.prems" unfolding e
        by (simp add: appendTextCell_fields)
    qed
  next
    case False
    then show ?thesis using "1.prems" by (subst (1 2 3 4 5) ensureGrid_loop.simps) simp
  qed
qed

lemma ensureGrid_fields:
  "cols (ensureGrid r) = cols r" "rows (ensureGrid r) = rows r" "cellSize (ensureGrid r) = cellSize r"
  by (simp_all add: ensureGrid_def Let_def ensureGrid_loop_fields)

lemma even_int64: "even (int64 (k * 2))"
proof -
  have "even ((k * 2 + 2 ^ 63) mod 2 ^ 64 - (2 ^ 63 :: int))"
    by (simp add: dvd_mod_iff)
  then show ?thesis by (simp add: int64_def)
qed

lemma ensureGrid_length:
  "length (objects r) \<le> length (objects (ensureGrid r)) \<and>
   int64 (int64 (cols r * rows r) * 2) \<le> int (length (objects (ensureGrid r))) \<and>
   (even (length (objects r)) \<longrightarrow>
      even (length (objects (ensureGrid r))) \<and>
      int (length (objects (ensureGrid r))) =
        max (int (length (objects r))) (int64 (int64 (cols r * rows r) * 2)))"
proof (cases "int (length (objects r)) = int64 (int64 (cols r * rows r) * 2)")
  case True
  then show ?thesis by (simp add: ensureGrid_def Let_def)
next
  case False
  define i where "i = int (length (objects r))"
  define n where "n = int64 (int64 (cols r * rows r) * 2)"
  have e: "ensureGrid r = ensureGrid_loop i n r"
    using False by (simp add: ensureGrid_def Let_def i_def n_def)
  have L: "length (objects r) \<le> length (objects (ensureGrid_loop i n r)) \<and>
     (i < n \<longrightarrow> n \<le> int (length (objects (ensureGrid_loop i n r))) \<and>
        int (length (objects (ensureGrid_loop i n r))) < n + 2) \<and>
     (n \<le> i \<longrightarrow> ensureGrid_loop i n r = r) \<and>
     (even (length (objects r)) \<longrightarrow> even (length (objects (ensureGrid_loop i n r))))"
    using ensureGrid_loop_length [of i r n] by (simp add: i_def)
  have evn: "even n" unfolding n_def by (rule even_int64)
  show ?thesis
  proof (cases "i < n")
    case True
    define m where "m = int (length (objects (ensureGrid_loop i n r)))"
    have m: "n \<le> m" "m < n + 2" using L True by (simp_all add: m_def)
    have "even (length (objects r)) \<Longrightarrow> m = n"
    proof -
      assume "even (length (objects r))"
      then have "even m" using L by (simp add: m_def)
      then obtain k where k: "m = 2 * k" by (auto elim: evenE)
      from evn obtain j where j: "n = 2 * j" by (auto elim: evenE)
      show "m = n" using m unfolding k j by arith
    qed
    then show ?thesis unfolding e n_def [symmetric] using L True m
      by (auto simp: m_def i_def max_def)
  next
    case False
    then have "ensureGrid_loop i n r = r" using L by simp
    then show ?thesis unfolding e n_def [symmetric] using False by (simp add: i_def max_def)
  qed
qed

text \<open>The passes keep the length of the pool that \<open>ensureGrid\<close> has made.\<close>

lemma paint_runes_length:
  "paint_runes cs style (i, x, objs) = Inr (i', x', objs') \<Longrightarrow> length objs' = length objs"
proof (induction cs arbitrary: i x objs)
  case Nil
  then show ?case by simp
next
  case (Cons c cs)
  then show ?case
    by (auto split: sum.splits dest!: setCellRune_length)
qed

lemma paint_blanks_length:
  "paint_blanks n style i x objs = Inr (i', x', objs') \<Longrightarrow> length objs' = length objs"
proof (induction n style i x objs rule: paint_blanks.induct)
  case (1 n style i x objs)
  show ?case
  proof (cases "i < n")
    case True
    then obtain objs1 where s: "setCellRune 32 x style objs = Inr objs1"
      and p: "paint_blanks n style (i + 1) (x + 1) objs1 = Inr (i', x', objs')"
      using "1.prems" by (subst (asm) paint_blanks.simps) (auto split: sum.splits)
    have "length objs' = length objs1" using "1.IH" [OF True s p] .
    then show ?thesis using setCellRune_length [OF s] by simp
  next
    case False
    then show ?thesis using "1.prems" by (subst (asm) paint_blanks.simps) simp
  qed
qed

lemma paint_cells_length:
  "paint_cells ws n row (i, x, objs) = Inr (i', x', objs') \<Longrightarrow> length objs' = length objs"
proof (induction row arbitrary: i x objs)
  case Nil
  then show ?case by simp
next
  case (Cons c row)
  show ?case
  proof (cases "n \<le> i")
    case True
    then show ?thesis using Cons by simp
  next
    case False
    then obtain objs1 where l: "length objs1 = length objs"
      and p: "paint_cells ws n row (i + 1, x + 1, objs1) = Inr (i', x', objs')"
      using Cons.prems
      by (auto split: sum.splits if_splits option.splits dest!: setCellRune_length)
    show ?thesis using Cons.IH [OF p] l by simp
  qed
qed

lemma refreshGrid_row_length:
  assumes "refreshGrid_row t r rowIndex line row x objs = Inr (x', objs')"
  shows "length objs' = length objs"
  using assms unfolding refreshGrid_row_def
  by (auto split: sum.splits if_splits prod.splits
      dest!: setCellRune_length paint_runes_length paint_blanks_length paint_cells_length)

lemma refreshGrid_rows_length:
  "refreshGrid_rows t r rws rowIndex line x objs = Inr (x', objs') \<Longrightarrow> length objs' = length objs"
proof (induction rws arbitrary: rowIndex line x objs)
  case Nil
  then show ?case by simp
next
  case (Cons row rws)
  show ?case
  proof (cases "rows r \<le> rowIndex")
    case True
    then show ?thesis using Cons.prems by simp
  next
    case False
    then obtain x1 objs1 where a: "refreshGrid_row t r rowIndex line row x objs = Inr (x1, objs1)"
      and b: "refreshGrid_rows t r rws (rowIndex + 1) (line + 1) x1 objs1 = Inr (x', objs')"
      using Cons.prems by (auto split: sum.splits)
    show ?thesis using Cons.IH [OF b] refreshGrid_row_length [OF a] by simp
  qed
qed

lemma refreshGrid_blank_length:
  "refreshGrid_blank x objs = Inr objs' \<Longrightarrow> length objs' = length objs"
proof (induction x objs rule: refreshGrid_blank.induct)
  case (1 x objs)
  show ?case
  proof (cases "x < int (length objs) div 2")
    case True
    then obtain objs1 where s: "setCellRune 32 x TextGridStyleDefault objs = Inr objs1"
      and p: "refreshGrid_blank (x + 1) objs1 = Inr objs'"
      using "1.prems" by (subst (asm) refreshGrid_blank.simps) (auto split: sum.splits)
    show ?thesis using "1.IH" [OF True s p] setCellRune_length [OF s] by simp
  next
    case False
    then show ?thesis using "1.prems" by (subst (asm) refreshGrid_blank.simps) simp
  qed
qed

lemma refreshGrid_fields:
  assumes "refreshGrid t r = Inr r'"
  shows "length (objects r') = length (objects r)" "cols r' = cols r" "rows r' = rows r"
    "cellSize r' = cellSize r"
  using assms unfolding refreshGrid_def
  by (auto split: sum.splits prod.splits dest!: refreshGrid_rows_length refreshGrid_blank_length)

lemma Layout_cell_length: "Layout_cell r i p objs = Inr objs' \<Longrightarrow> length objs' = length objs"
  by (auto simp: Layout_cell_def Let_def split: if_splits)

lemma Layout_cols_length:
  "Layout_cols r x i p objs = Inr (i', p', objs') \<Longrightarrow> length objs' = length objs"
proof (induction r x i p objs rule: Layout_cols.induct)
  case (1 r x i cellPos objs)
  show ?case
  proof (cases "x < cols r")
    case True
    then obtain objs1 where s: "Layout_cell r i cellPos objs = Inr objs1"
      and p: "Layout_cols r (x + 1) (i + 1) (int64 (fst cellPos + fst (cellSize r)), snd cellPos) objs1 =
        Inr (i', p', objs')"
      using "1.prems" by (subst (asm) Layout_cols.simps) (auto split: sum.splits)
    show ?thesis using "1.IH" [OF True s p] Layout_cell_length [OF s] by simp
  next
    case False
    then show ?thesis using "1.prems" by (subst (asm) Layout_cols.simps) simp
  qed
qed

lemma Layout_rows_length:
  "Layout_rows r y i p objs = Inr objs' \<Longrightarrow> length objs' = length objs"
proof (induction r y i p objs rule: Layout_rows.induct)
  case (1 r y i cellPos objs)
  show ?case
  proof (cases "y < rows r")
    case True
    then obtain i1 p1 objs1 where s: "Layout_cols r 0 i cellPos objs = Inr (i1, p1, objs1)"
      and p: "Layout_rows r (y + 1) i1 (0, int64 (snd p1 + snd (cellSize r))) objs1 = Inr objs'"
      using "1.prems" by (subst (asm) Layout_rows.simps) (auto split: sum.splits)
    have "(i1, p1, objs1) = (i1, p1, objs1)" by simp
    show ?thesis using "1.IH" [OF True s _ _ p] Layout_cols_length [OF s] by simp
  next
    case False
    then show ?thesis using "1.prems" by (subst (asm) Layout_rows.simps) simp
  qed
qed

lemma updateGridSize_fields:
  "objects (updateGridSize t r sz) = objects r" "cellSize (updateGridSize t r sz) = cellSize r"
  by (simp_all add: updateGridSize_def Let_def)

lemma Refresh_fields:
  assumes "Refresh t r = Inr r'"
  shows "length (objects r') = length (objects (ensureGrid r))" "cols r' = cols r" "rows r' = rows r"
    "cellSize r' = cellSize r"
  using refreshGrid_fields [of t "ensureGrid r" r'] assms
  by (simp_all add: Refresh_def ensureGrid_fields)

lemma Layout_fields:
  assumes "Layout t r sz = Inr r'"
  shows "length (objects r') = length (objects (ensureGrid (updateGridSize t r sz)))"
    "cols r' = cols (updateGridSize t r sz)" "rows r' = rows (updateGridSize t r sz)"
    "cellSize r' = cellSize r"
  using assms unfolding Layout_def Let_def
  by (auto split: sum.splits dest!: Layout_rows_length simp: ensureGrid_fields updateGridSize_fields)

lemma pass_pool:
  assumes "run_passes r [(t, p)] = Inr r'"
  shows "length (objects r) \<le> length (objects r') \<and>
    int64 (int64 (cols r' * rows r') * 2) \<le> int (length (objects r')) \<and>
    (even (length (objects r)) \<longrightarrow>
       even (length (objects r')) \<and>
       int (length (objects r')) =
         max (int (length (objects r))) (int64 (int64 (cols r' * rows r') * 2)))"
proof (cases p)
  case (LayoutPass sz)
  then have l: "Layout t r sz = Inr r'" using assms by (simp split: sum.splits)
  show ?thesis
    using ensureGrid_length [of "updateGridSize t r sz"] Layout_fields [OF l]
    by (simp add: updateGridSize_fields ensureGrid_fields)
next
  case RefreshPass
  then have l: "Refresh t r = Inr r'" using assms by (simp split: sum.splits)
  show ?thesis
    using ensureGrid_length [of r] Refresh_fields [OF l] by simp
qed

lemma run_passes_Cons:
  "run_passes r ((t, p) # ps) =
    (case run_passes r [(t, p)] of Inl e \<Rightarrow> Inl e | Inr r1 \<Rightarrow> run_passes r1 ps)"
  by (cases p) (simp_all split: sum.splits)

lemma run_passes_append:
  "run_passes r (qs @ ps) =
    (case run_passes r qs of Inl e \<Rightarrow> Inl e | Inr r1 \<Rightarrow> run_passes r1 ps)"
proof (induction qs arbitrary: r)
  case Nil
  then show ?case by simp
next
  case (Cons q qs)
  obtain t p where q: "q = (t, p)" by (cases q)
  show ?case unfolding q append_Cons
    by (subst (1 2) run_passes_Cons) (simp add: Cons.IH split: sum.splits)
qed

lemma run_passes_pool:
  "run_passes r ps = Inr r' \<Longrightarrow>
    length (objects r) \<le> length (objects r') \<and>
    (even (length (objects r)) \<longrightarrow> even (length (objects r')))"
proof (induction ps arbitrary: r' rule: rev_induct)
  case Nil
  then show ?case by simp
next
  case (snoc q ps)
  obtain t p where q: "q = (t, p)" by (cases q)
  from snoc.prems obtain r1 where a: "run_passes r ps = Inr r1"
    and b: "run_passes r1 [(t, p)] = Inr r'"
    unfolding q by (auto simp: run_passes_append split: sum.splits)
  show ?case using snoc.IH [OF a] pass_pool [OF b] by auto
qed

lemma cellCount2_exact:
  assumes "MinInt \<le> 2 * c * r" "2 * c * r \<le> MaxInt"
  shows "int64 (int64 (c * r) * 2) = 2 * c * r"
proof -
  have "MinInt \<le> c * r \<and> c * r \<le> MaxInt"
    using assms by (cases "0 \<le> c * r") (simp_all add: MinInt_def MaxInt_def)
  then have "int64 (c * r) = c * r" by (simp add: int64_id)
  moreover have "c * r * 2 = 2 * c * r" by simp
  ultimately show ?thesis using assms by (simp add: int64_id)
qed

text \<open>
  Claim C2, as the code has it. The pool has an even length at first (a new renderer has an
  empty pool), the sizes of the layouts are those for which \<open>updateGridSize\<close> is exact, and
  no pass panics. Then the pool is never shorter after the sequence than it was after a part
  of it; and after the last pass its length is the larger of its length before
  that pass and \<open>2 * cols * rows\<close>, for the \<open>cols\<close> and \<open>rows\<close> that the renderer has then, when that
  product is an \<open>int\<close>.
\<close>

theorem pool_size:
  assumes "even (length (objects r))" and "exact_passes (cellSize r) ps"
    and "run_passes r ps = Inr r'"
  shows "(\<forall>qs ps' r1. ps = qs @ ps' \<and> run_passes r qs = Inr r1 \<longrightarrow>
       length (objects r1) \<le> length (objects r')) \<and>
    (\<forall>qs t p r1. ps = qs @ [(t, p)] \<and> run_passes r qs = Inr r1 \<and>
         MinInt \<le> 2 * cols r' * rows r' \<and> 2 * cols r' * rows r' \<le> MaxInt \<longrightarrow>
       int (length (objects r')) = max (int (length (objects r1))) (2 * cols r' * rows r'))"
proof (intro conjI allI impI)
  fix qs ps' r1
  assume a: "ps = qs @ ps' \<and> run_passes r qs = Inr r1"
  then have "run_passes r1 ps' = Inr r'" using assms(3) by (simp add: run_passes_append)
  then show "length (objects r1) \<le> length (objects r')" using run_passes_pool by blast
next
  fix qs t p r1
  assume a: "ps = qs @ [(t, p)] \<and> run_passes r qs = Inr r1 \<and>
    MinInt \<le> 2 * cols r' * rows r' \<and> 2 * cols r' * rows r' \<le> MaxInt"
  then have b: "run_passes r1 [(t, p)] = Inr r'" using assms(3) by (simp add: run_passes_append)
  have "even (length (objects r1))" using run_passes_pool [of r qs r1] a assms(1) by simp
  moreover have "int64 (int64 (cols r' * rows r') * 2) = 2 * cols r' * rows r'"
    using a by (intro cellCount2_exact) simp_all
  ultimately show "int (length (objects r')) = max (int (length (objects r1))) (2 * cols r' * rows r')"
    using pass_pool [OF b] by simp
qed

text \<open>
  A new renderer with cells of 10 by 10 pixels and an empty grid: a layout of 20 by 20
  pixels makes a pool of 4 cells, 8 objects; a layout of 0 by 0 pixels then has no column
  and no row, and keeps the 8 objects.
\<close>

lemma Layout_grows:
  "\<exists>r1. Layout NewTextGrid (CreateRenderer (10, 10)) (20, 20) = Inr r1 \<and>
     cols r1 = 2 \<and> rows r1 = 2 \<and> cellSize r1 = (10, 10) \<and> length (objects r1) = 8"
  by (simp add: CreateRenderer_def NewTextGrid_def Layout_def updateGridSize_def ensureGrid_def
      ensureGrid_loop.simps appendTextCell_def Layout_rows.simps Layout_cols.simps Layout_cell_def
      Move_def Resize_def Let_def int64_def)

lemma Layout_shrinks:
  assumes "cellSize r1 = (10, 10)" "length (objects r1) = 8"
  shows "\<exists>r2. Layout NewTextGrid r1 (0, 0) = Inr r2 \<and> cols r2 = 0 \<and> rows r2 = 0 \<and>
     length (objects r2) = 8"
  using assms
  by (simp add: NewTextGrid_def Layout_def updateGridSize_def ensureGrid_def
      ensureGrid_loop.simps Layout_rows.simps Let_def int64_def)

theorem pool_size_witness:
  "even (length (objects (CreateRenderer (10, 10)))) \<and>
   exact_size (10, 10) (20, 20) \<and> exact_size (10, 10) (0, 0) \<and>
   (\<exists>r1 r2. run_passes (CreateRenderer (10, 10)) [(NewTextGrid, LayoutPass (20, 20))] = Inr r1 \<and>
      run_passes (CreateRenderer (10, 10))
        [(NewTextGrid, LayoutPass (20, 20)), (NewTextGrid, LayoutPass (0, 0))] = Inr r2 \<and>
      length (objects r1) = 8 \<and> cols r2 = 0 \<and> rows r2 = 0 \<and>
      length (objects r1) \<le> length (objects r2) \<and>
      int (length (objects r2)) = max (int (length (objects r1))) (2 * cols r2 * rows r2))"
proof -
  let ?r = "CreateRenderer (10, 10)"
  let ?p1 = "(NewTextGrid, LayoutPass (20, 20))"
  let ?p2 = "(NewTextGrid, LayoutPass (0, 0))"
  have e: "even (length (objects ?r))" by (simp add: CreateRenderer_def)
  have x: "exact_size (10, 10) (20, 20)" "exact_size (10, 10) (0, 0)"
    by (simp_all add: exact_size_def)
  then have xs: "exact_passes (cellSize ?r) [?p1, ?p2]" by (simp add: CreateRenderer_def)
  obtain r1 where r1: "Layout NewTextGrid ?r (20, 20) = Inr r1" "cellSize r1 = (10, 10)"
    "length (objects r1) = 8"
    using Layout_grows by blast
  obtain r2 where r2: "Layout NewTextGrid r1 (0, 0) = Inr r2" "cols r2 = 0" "rows r2 = 0"
    using Layout_shrinks [OF r1(2,3)] by blast
  have p1: "run_passes ?r [?p1] = Inr r1" using r1 by simp
  have p2: "run_passes ?r [?p1, ?p2] = Inr r2" using r1 r2 by simp
  have b: "MinInt \<le> 2 * cols r2 * rows r2 \<and> 2 * cols r2 * rows r2 \<le> MaxInt"
    using r2 by (simp add: MinInt_def MaxInt_def)
  note T = pool_size [OF e xs p2]
  have "length (objects r1) \<le> length (objects r2)"
    using T p1 by (elim conjE allE [where x = "[?p1]"] allE [where x = "[?p2]"] allE [where x = r1])
      simp
  moreover have "int (length (objects r2)) = max (int (length (objects r1))) (2 * cols r2 * rows r2)"
    using conjunct2 [OF T, rule_format, of "[?p1]" NewTextGrid "LayoutPass (0, 0)" r1] p1 b by simp
  ultimately show ?thesis using e x p1 p2 r1 r2 by blast
qed

text \<open>
  The pool after a grid has shrunk, and after its text has: the layout of an empty grid
  in 20 by 20 pixels and then in 0 by 0 pixels, and the layout of the text \<open>ab\<close> and then
  of the empty text, both in 0 by 0 pixels. The renderer has no column at the end, and the
  pool has the objects of the larger grid.
\<close>

lemma Layout_text:
  "\<exists>r1. Layout (SetText NewTextGrid ''ab'') (CreateRenderer (10, 10)) (0, 0) = Inr r1 \<and>
     cols r1 = 2 \<and> rows r1 = 1 \<and> cellSize r1 = (10, 10) \<and> length (objects r1) = 4"
  by (simp add: CreateRenderer_def NewTextGrid_def SetText_def range_runes_ab Layout_def
      updateGridSize_def ensureGrid_def
      ensureGrid_loop.simps appendTextCell_def Layout_rows.simps Layout_cols.simps Layout_cell_def
      Move_def Resize_def Let_def int64_def)

lemma Layout_no_text:
  assumes "cellSize r1 = (10, 10)" "length (objects r1) = 4"
  shows "\<exists>r2. Layout (SetText NewTextGrid []) r1 (0, 0) = Inr r2 \<and> cols r2 = 0 \<and> rows r2 = 1 \<and>
     length (objects r2) = 4"
  using assms
  by (simp add: NewTextGrid_def SetText_def Layout_def updateGridSize_def ensureGrid_def
      ensureGrid_loop.simps Layout_rows.simps Layout_cols.simps Let_def int64_def)

theorem pool_shrink_counterexample:
  "(\<exists>r2. run_passes (CreateRenderer (10, 10))
        [(NewTextGrid, LayoutPass (20, 20)), (NewTextGrid, LayoutPass (0, 0))] = Inr r2 \<and>
      cols r2 = 0 \<and> rows r2 = 0 \<and> length (objects r2) = 8 \<and>
      int (length (objects r2)) \<noteq> 2 * cols r2 * rows r2) \<and>
   (\<exists>r2. run_passes (CreateRenderer (10, 10))
        [(SetText NewTextGrid ''ab'', LayoutPass (0, 0)), (SetText NewTextGrid [], LayoutPass (0, 0))] =
        Inr r2 \<and>
      cols r2 = 0 \<and> rows r2 = 1 \<and> length (objects r2) = 4 \<and>
      int (length (objects r2)) \<noteq> 2 * cols r2 * rows r2)"
proof -
  obtain r1 where r1: "Layout NewTextGrid (CreateRenderer (10, 10)) (20, 20) = Inr r1"
    "cellSize r1 = (10, 10)" "length (objects r1) = 8"
    using Layout_grows by blast
  obtain r2 where r2: "Layout NewTextGrid r1 (0, 0) = Inr r2" "cols r2 = 0" "rows r2 = 0"
    "length (objects r2) = 8"
    using Layout_shrinks [OF r1(2,3)] by blast
  obtain q1 where q1: "Layout (SetText NewTextGrid ''ab'') (CreateRenderer (10, 10)) (0, 0) = Inr q1"
    "cellSize q1 = (10, 10)" "length (objects q1) = 4"
    using Layout_text by blast
  obtain q2 where q2: "Layout (SetText NewTextGrid []) q1 (0, 0) = Inr q2" "cols q2 = 0" "rows q2 = 1"
    "length (objects q2) = 4"
    using Layout_no_text [OF q1(2,3)] by blast
  have "run_passes (CreateRenderer (10, 10))
      [(NewTextGrid, LayoutPass (20, 20)), (NewTextGrid, LayoutPass (0, 0))] = Inr r2"
    using r1 r2 by simp
  moreover have "run_passes (CreateRenderer (10, 10))
      [(SetText NewTextGrid ''ab'', LayoutPass (0, 0)), (SetText NewTextGrid [], LayoutPass (0, 0))] =
      Inr q2"
    using q1 q2 by simp
  ultimately show ?thesis using r2 q2 by simp
qed

section \<open>The gutter of line numbers\<close>

text \<open>\<open>setCellRune\<close> paints a cell of a well-formed pool, and no other cell.\<close>

lemma pool_ok_nth:
  "pool_ok objs \<Longrightarrow> 2 * k + 1 < length objs \<Longrightarrow>
    (\<exists>fill p z. objs ! (2 * k) = Rectangle fill p z) \<and>
    (\<exists>s c p z. objs ! (2 * k + 1) = CanvasText s c p z)"
proof (induction objs arbitrary: k rule: pool_ok.induct)
  case (2 fill p z s c p' z' rest)
  show ?case
  proof (cases k)
    case 0
    then show ?thesis by simp
  next
    case (Suc j)
    then show ?thesis using "2.IH" [of j] "2.prems" by simp
  qed
qed simp_all

lemma pool_ok_update:
  "pool_ok objs \<Longrightarrow> 2 * k + 1 < length objs \<Longrightarrow>
    pool_ok (objs[2 * k + 1 := CanvasText s c p z, 2 * k := Rectangle fill q w])"
proof (induction objs arbitrary: k rule: pool_ok.induct)
  case (2 fill' p' z' s' c' p'' z'' rest)
  show ?case
  proof (cases k)
    case 0
    then show ?thesis using "2.prems" by simp
  next
    case (Suc j)
    then show ?thesis using "2.IH" [of j] "2.prems" by simp
  qed
qed simp_all

lemma pool_ok_append:
  "pool_ok objs \<Longrightarrow> pool_ok (objs @ [Rectangle fill p z, CanvasText s c p' z'])"
  by (induction objs rule: pool_ok.induct) simp_all

lemma pool_ok_even: "pool_ok objs \<Longrightarrow> even (length objs)"
  by (induction objs rule: pool_ok.induct) simp_all

lemma keeps_refl: "pool_ok objs \<Longrightarrow> keeps x objs objs"
  by (simp add: keeps_def)

lemma keeps_trans: "keeps x o1 o2 \<Longrightarrow> keeps x' o2 o3 \<Longrightarrow> x \<le> x' \<Longrightarrow> keeps x o1 o3"
  by (simp add: keeps_def)

lemma keeps_view: "keeps x objs objs' \<Longrightarrow> int k < x \<Longrightarrow> cell_view objs' k = cell_view objs k"
  by (simp add: keeps_def)

lemma double_neq: "j \<noteq> k \<Longrightarrow> 2 * j \<noteq> 2 * k + 1 \<and> 2 * j + 1 \<noteq> 2 * (k :: nat) \<and> 2 * j \<noteq> 2 * k"
  by arith

lemma setCellRune_paints:
  assumes "pool_ok objs" "0 \<le> x" "2 * x + 1 < int (length objs)"
  shows "\<exists>objs'. setCellRune c x style objs = Inr objs' \<and> pool_ok objs' \<and>
    length objs' = length objs \<and>
    (\<forall>k. cell_view objs' k =
       (if k = nat x then Some (rune_text c, style_fg style, style_bg style) else cell_view objs k))"
proof -
  define k where "k = nat x"
  have k: "x = int k" "2 * k + 1 < length objs" using assms by (simp_all add: k_def)
  from pool_ok_nth [OF assms(1) k(2)] obtain fill p z s c' p' z' where
    o: "objs ! (2 * k) = Rectangle fill p z" "objs ! (2 * k + 1) = CanvasText s c' p' z'" by blast
  define objs' where "objs' = objs[2 * k + 1 := CanvasText (rune_text c) (style_fg style) p' z',
    2 * k := Rectangle (style_bg style) p z]"
  have n: "nat (int k * 2) = 2 * k" "nat (int k * 2 + 1) = 2 * k + 1" by simp_all
  have "setCellRune c x style objs = Inr objs'"
    unfolding setCellRune_def k(1) n using k(2) o
    by (simp add: objs'_def Let_def rune_text_def style_fg_def style_bg_def)
  moreover have "pool_ok objs'" unfolding objs'_def using assms(1) k(2) by (rule pool_ok_update)
  moreover have l: "length objs' = length objs" by (simp add: objs'_def)
  moreover have "cell_view objs' j =
      (if j = k then Some (rune_text c, style_fg style, style_bg style) else cell_view objs j)" for j
  proof (cases "j = k")
    case True
    then show ?thesis using k(2) by (simp add: cell_view_def objs'_def)
  next
    case False
    have e: "objs' ! (2 * j) = objs ! (2 * j)" "objs' ! (2 * j + 1) = objs ! (2 * j + 1)"
      using double_neq [OF False] by (simp_all add: objs'_def)
    show ?thesis unfolding cell_view_def l e using False by simp
  qed
  ultimately show ?thesis unfolding k_def [symmetric] by blast
qed

lemma setCellRune_keeps:
  assumes "pool_ok objs" "0 \<le> x" "2 * x + 1 < int (length objs)"
  shows "\<exists>objs'. setCellRune c x style objs = Inr objs' \<and> keeps x objs objs' \<and>
    cell_view objs' (nat x) = Some (rune_text c, style_fg style, style_bg style)"
proof -
  from setCellRune_paints [OF assms, of c style] obtain objs' where
    a: "setCellRune c x style objs = Inr objs'" "pool_ok objs'" "length objs' = length objs"
    "\<And>k. cell_view objs' k =
       (if k = nat x then Some (rune_text c, style_fg style, style_bg style) else cell_view objs k)"
    by blast
  have "keeps x objs objs'" unfolding keeps_def using a(2,3) assms(2) by (auto simp: a(4))
  then show ?thesis using a by simp
qed

text \<open>
  The loops of \<open>refreshGrid\<close> paint from the cell \<open>x\<close> on: they return when the pool has the
  cells, and what the pool shows before \<open>x\<close> stays.
\<close>

lemma paint_runes_paints:
  assumes "pool_ok objs" "0 \<le> x" "2 * (x + int (length cs)) \<le> int (length objs)"
  shows "\<exists>objs'. paint_runes cs style (i, x, objs) =
        Inr (i + int (length cs), x + int (length cs), objs') \<and>
      keeps x objs objs' \<and>
      (\<forall>j < length cs. cell_view objs' (nat x + j) =
         Some (rune_text (cs ! j), style_fg style, style_bg style))"
  using assms
proof (induction cs arbitrary: i x objs)
  case Nil
  then show ?case by (simp add: keeps_refl)
next
  case (Cons c cs)
  have "2 * x + 1 < int (length objs)" using Cons.prems(3) by simp
  from setCellRune_keeps [OF Cons.prems(1,2) this, of c style] obtain objs1 where
    s: "setCellRune c x style objs = Inr objs1" and k1: "keeps x objs objs1"
    and v1: "cell_view objs1 (nat x) = Some (rune_text c, style_fg style, style_bg style)"
    by blast
  have p1: "pool_ok objs1" and l1: "length objs1 = length objs" using k1 by (simp_all add: keeps_def)
  have "\<exists>objs'. paint_runes cs style (i + 1, x + 1, objs1) =
        Inr (i + 1 + int (length cs), x + 1 + int (length cs), objs') \<and>
      keeps (x + 1) objs1 objs' \<and>
      (\<forall>j < length cs. cell_view objs' (nat (x + 1) + j) =
         Some (rune_text (cs ! j), style_fg style, style_bg style))"
    using Cons.prems by (intro Cons.IH p1) (simp_all add: l1)
  then obtain objs' where
    r: "paint_runes cs style (i + 1, x + 1, objs1) =
        Inr (i + 1 + int (length cs), x + 1 + int (length cs), objs')"
    and k2: "keeps (x + 1) objs1 objs'"
    and v2: "\<And>j. j < length cs \<Longrightarrow> cell_view objs' (nat (x + 1) + j) =
         Some (rune_text (cs ! j), style_fg style, style_bg style)"
    by blast
  have e: "paint_runes (c # cs) style (i, x, objs) =
      Inr (i + int (length (c # cs)), x + int (length (c # cs)), objs')"
    using s r by (simp add: add.assoc)
  have k: "keeps x objs objs'" using k1 k2 by (rule keeps_trans) simp
  have v: "cell_view objs' (nat x + j) =
      Some (rune_text ((c # cs) ! j), style_fg style, style_bg style)" if "j < length (c # cs)" for j
  proof (cases j)
    case 0
    have "cell_view objs' (nat x) = cell_view objs1 (nat x)"
      using k2 Cons.prems(2) by (intro keeps_view [where x = "x + 1"]) simp_all
    then show ?thesis using v1 0 by simp
  next
    case (Suc j')
    have n: "nat x + Suc j' = nat (x + 1) + j'" using Cons.prems(2) by simp
    have "cell_view objs' (nat x + Suc j') =
        Some (rune_text (cs ! j'), style_fg style, style_bg style)"
      unfolding n using v2 [of j'] that Suc by simp
    then show ?thesis using Suc by simp
  qed
  show ?case using e k v by blast
qed

lemma paint_blanks_paints:
  assumes "pool_ok objs" "0 \<le> x" "2 * (x + max 0 (n - i)) \<le> int (length objs)"
  shows "\<exists>objs'. paint_blanks n style i x objs = Inr (max i n, x + max 0 (n - i), objs') \<and>
      keeps x objs objs' \<and>
      (\<forall>j < nat (n - i). cell_view objs' (nat x + j) =
         Some (rune_text 32, style_fg style, style_bg style))"
  using assms
proof (induction "nat (n - i)" arbitrary: i x objs)
  case 0
  then have "\<not> i < n" by simp
  then show ?case using 0 by (subst paint_blanks.simps) (simp add: keeps_refl max_def)
next
  case (Suc m)
  then have lt: "i < n" by linarith
  have "2 * x + 1 < int (length objs)" using Suc.prems(3) lt by simp
  from setCellRune_keeps [OF Suc.prems(1,2) this, of 32 style] obtain objs1 where
    s: "setCellRune 32 x style objs = Inr objs1" and k1: "keeps x objs objs1"
    and v1: "cell_view objs1 (nat x) = Some (rune_text 32, style_fg style, style_bg style)"
    by blast
  have p1: "pool_ok objs1" and l1: "length objs1 = length objs" using k1 by (simp_all add: keeps_def)
  have "\<exists>objs'. paint_blanks n style (i + 1) (x + 1) objs1 =
        Inr (max (i + 1) n, x + 1 + max 0 (n - (i + 1)), objs') \<and>
      keeps (x + 1) objs1 objs' \<and>
      (\<forall>j < nat (n - (i + 1)). cell_view objs' (nat (x + 1) + j) =
         Some (rune_text 32, style_fg style, style_bg style))"
    using Suc.hyps(2) Suc.prems lt by (intro Suc.hyps(1) p1) (simp_all add: l1)
  then obtain objs' where
    r: "paint_blanks n style (i + 1) (x + 1) objs1 =
        Inr (max (i + 1) n, x + 1 + max 0 (n - (i + 1)), objs')"
    and k2: "keeps (x + 1) objs1 objs'"
    and v2: "\<And>j. j < nat (n - (i + 1)) \<Longrightarrow> cell_view objs' (nat (x + 1) + j) =
         Some (rune_text 32, style_fg style, style_bg style)"
    by blast
  have m: "max (i + 1) n = max i n" "x + 1 + max 0 (n - (i + 1)) = x + max 0 (n - i)"
    using lt by simp_all
  have e: "paint_blanks n style i x objs = Inr (max i n, x + max 0 (n - i), objs')"
    using s r lt unfolding m by (subst paint_blanks.simps) simp
  have k: "keeps x objs objs'" using k1 k2 by (rule keeps_trans) simp
  have v: "cell_view objs' (nat x + j) = Some (rune_text 32, style_fg style, style_bg style)"
    if "j < nat (n - i)" for j
  proof (cases j)
    case 0
    have "cell_view objs' (nat x) = cell_view objs1 (nat x)"
      using k2 Suc.prems(2) by (intro keeps_view [where x = "x + 1"]) simp_all
    then show ?thesis using v1 0 by simp
  next
    case (Suc j')
    have n: "nat x + Suc j' = nat (x + 1) + j'" using Suc.prems(2) by simp
    have "j' < nat (n - (i + 1))" using that Suc by linarith
    then have "cell_view objs' (nat x + Suc j') =
        Some (rune_text 32, style_fg style, style_bg style)"
      unfolding n using v2 [of j'] by simp
    then show ?thesis using Suc by simp
  qed
  show ?case using e k v by blast
qed

lemma paint_cells_paints:
  assumes "pool_ok objs" "0 \<le> x" "2 * (x + max 0 (n - i)) \<le> int (length objs)"
  shows "\<exists>i' objs'. paint_cells ws n row (i, x, objs) = Inr (i', x + (i' - i), objs') \<and>
      i \<le> i' \<and> i' \<le> max i n \<and> keeps x objs objs'"
  using assms
proof (induction row arbitrary: i x objs)
  case Nil
  then show ?case by (simp add: keeps_refl)
next
  case (Cons c row)
  show ?case
  proof (cases "n \<le> i")
    case True
    from Cons.IH [OF Cons.prems] obtain i' objs' where
      "paint_cells ws n row (i, x, objs) = Inr (i', x + (i' - i), objs')"
      "i \<le> i'" "i' \<le> max i n" "keeps x objs objs'" by blast
    then show ?thesis using True by auto
  next
    case False
    have b: "2 * x + 1 < int (length objs)" using Cons.prems(3) False by simp
    define call where "call =
      (if ws \<and> Rune c = 32 then
         (case Style c of
            None \<Rightarrow> setCellRune textAreaSpaceSymbol x TextGridStyleWhitespace objs
          | Some st \<Rightarrow>
              (case BackgroundColor st of
                 None \<Rightarrow> setCellRune textAreaSpaceSymbol x TextGridStyleWhitespace objs
               | Some bg \<Rightarrow>
                   setCellRune textAreaSpaceSymbol x
                     (Some \<lparr>FGColor = TextColor (the TextGridStyleWhitespace),
                            BGColor = BackgroundColor st\<rparr>) objs))
       else setCellRune (Rune c) x (Style c) objs)"
    have "\<exists>objs1. call = Inr objs1 \<and> keeps x objs objs1"
      unfolding call_def using setCellRune_keeps [OF Cons.prems(1,2) b]
      by (auto split: option.splits)
    then obtain objs1 where s: "call = Inr objs1" and k1: "keeps x objs objs1" by blast
    have p1: "pool_ok objs1" and l1: "length objs1 = length objs"
      using k1 by (simp_all add: keeps_def)
    have "\<exists>i' objs'. paint_cells ws n row (i + 1, x + 1, objs1) =
        Inr (i', x + 1 + (i' - (i + 1)), objs') \<and>
      i + 1 \<le> i' \<and> i' \<le> max (i + 1) n \<and> keeps (x + 1) objs1 objs'"
      using Cons.prems False by (intro Cons.IH p1) (simp_all add: l1)
    then obtain i' objs' where
      r: "paint_cells ws n row (i + 1, x + 1, objs1) = Inr (i', x + 1 + (i' - (i + 1)), objs')"
      and i': "i + 1 \<le> i'" "i' \<le> max (i + 1) n" and k2: "keeps (x + 1) objs1 objs'"
      by blast
    have "paint_cells ws n (c # row) (i, x, objs) =
        (case call of Inl e \<Rightarrow> Inl e | Inr objs' \<Rightarrow> paint_cells ws n row (i + 1, x + 1, objs'))"
      using False unfolding call_def by simp
    then have e: "paint_cells ws n (c # row) (i, x, objs) = Inr (i', x + (i' - i), objs')"
      using s r by simp
    have k: "keeps x objs objs'" using k1 k2 by (rule keeps_trans) simp
    show ?thesis using e i' k False by (intro exI [of _ i'] exI [of _ objs']) simp
  qed
qed

lemma refreshGrid_row_gutter:
  assumes "LineNumbers t" "pool_ok objs" "0 \<le> x"
    "int (length (range_runes (Sprintf_d line))) \<le> lineCountWidth r"
    "lineCountWidth r + 1 \<le> cols r"
    "2 * (x + cols r) \<le> int (length objs)"
  shows "\<exists>objs'. refreshGrid_row t r rowIndex line row x objs = Inr (x + cols r, objs') \<and>
      keeps x objs objs' \<and>
      (\<forall>j < length (gutter_runes line (lineCountWidth r)). cell_view objs' (nat x + j) =
         Some (rune_text (gutter_runes line (lineCountWidth r) ! j),
               style_fg TextGridStyleWhitespace, style_bg TextGridStyleWhitespace))"
proof -
  define cs where "cs = range_runes (Sprintf_d line)"
  define d where "d = length cs"
  define w where "w = lineCountWidth r"
  define W where "W = TextGridStyleWhitespace"
  define g where "g = gutter_runes line w"
  have dw: "int d \<le> w" "w + 1 \<le> cols r" using assms(4,5) by (simp_all add: d_def cs_def w_def)
  have g: "g = cs @ replicate (nat (w - int d)) 32 @ [124]"
    by (simp add: g_def gutter_runes_def cs_def d_def)
  have ld: "length cs = d" by (simp add: d_def)
  have lg: "length g = nat w + 1" using dw by (simp add: g ld)
  have "2 * (x + int (length cs)) \<le> int (length objs)" using assms(6) dw by (simp add: d_def)
  from paint_runes_paints [OF assms(2,3) this, of W 0] obtain o1 where
    e1: "paint_runes cs W (0, x, objs) = Inr (int d, x + int d, o1)"
    and k1: "keeps x objs o1"
    and v1: "\<And>j. j < d \<Longrightarrow> cell_view o1 (nat x + j) = Some (rune_text (cs ! j), style_fg W, style_bg W)"
    unfolding d_def by auto
  have p1: "pool_ok o1" and l1: "length o1 = length objs" using k1 by (simp_all add: keeps_def)
  have "2 * (x + int d + max 0 (w - int d)) \<le> int (length o1)" using assms(6) dw by (simp add: l1)
  moreover have "0 \<le> x + int d" using assms(3) by simp
  ultimately obtain o2 where
    e2: "paint_blanks w W (int d) (x + int d) o1 = Inr (max (int d) w, x + int d + max 0 (w - int d), o2)"
    and k2: "keeps (x + int d) o1 o2"
    and v2: "\<And>j. j < nat (w - int d) \<Longrightarrow>
      cell_view o2 (nat (x + int d) + j) = Some (rune_text 32, style_fg W, style_bg W)"
    using paint_blanks_paints [OF p1, of "x + int d" w "int d" W] by blast
  have m2: "max (int d) w = w" "x + int d + max 0 (w - int d) = x + w" using dw by simp_all
  have p2: "pool_ok o2" and l2: "length o2 = length objs" using k2 l1 by (simp_all add: keeps_def)
  have "2 * (x + w) + 1 < int (length o2)" "0 \<le> x + w" using assms(3,6) dw by (simp_all add: l2)
  from setCellRune_keeps [OF p2 this(2,1), of 124 W] obtain o3 where
    e3: "setCellRune 124 (x + w) W o2 = Inr o3"
    and k3: "keeps (x + w) o2 o3"
    and v3: "cell_view o3 (nat (x + w)) = Some (rune_text 124, style_fg W, style_bg W)"
    by blast
  have p3: "pool_ok o3" and l3: "length o3 = length objs" using k3 l2 by (simp_all add: keeps_def)
  have "2 * (x + w + 1 + max 0 (cols r - (w + 1))) \<le> int (length o3)" "0 \<le> x + w + 1"
    using assms(3,6) dw by (simp_all add: l3)
  from paint_cells_paints [OF p3 this(2,1), of "Whitespace t" row] obtain i4 o4 where
    e4: "paint_cells (Whitespace t) (cols r) row (w + 1, x + w + 1, o3) =
      Inr (i4, x + w + 1 + (i4 - (w + 1)), o4)"
    and i4: "w + 1 \<le> i4" "i4 \<le> max (w + 1) (cols r)"
    and k4: "keeps (x + w + 1) o3 o4"
    by blast
  have x4: "x + w + 1 + (i4 - (w + 1)) = x + i4" by simp
  have i4c: "i4 \<le> cols r" using i4 dw by simp
  have p4: "pool_ok o4" and l4: "length o4 = length objs" using k4 l3 by (simp_all add: keeps_def)
  define nl where "nl \<longleftrightarrow> Whitespace t \<and> i4 < cols r \<and> rowIndex < int (length (Content t)) - 1"
  have "\<exists>i5 o5. (if nl then
        (case setCellRune textAreaNewLineSymbol (x + i4) W o4 of
           Inl e \<Rightarrow> Inl e
         | Inr objs5 \<Rightarrow> Inr (i4 + 1, x + i4 + 1, objs5))
      else Inr (i4, x + i4, o4)) = Inr (i5, x + i5, o5) \<and>
      i4 \<le> i5 \<and> i5 \<le> cols r \<and> keeps (x + i4) o4 o5"
  proof (cases nl)
    case True
    then have "2 * (x + i4) + 1 < int (length o4)" "0 \<le> x + i4"
      using assms(3,6) i4 dw by (simp_all add: l4 nl_def)
    from setCellRune_keeps [OF p4 this(2,1), of textAreaNewLineSymbol W] obtain o5 where
      "setCellRune textAreaNewLineSymbol (x + i4) W o4 = Inr o5" "keeps (x + i4) o4 o5" by blast
    then show ?thesis using True
      by (intro exI [of _ "i4 + 1"] exI [of _ o5]) (simp add: nl_def add.assoc)
  next
    case False
    then show ?thesis using i4c p4
      by (intro exI [of _ i4] exI [of _ o4]) (simp add: keeps_refl)
  qed
  then obtain i5 o5 where
    e5: "(if nl then
        (case setCellRune textAreaNewLineSymbol (x + i4) W o4 of
           Inl e \<Rightarrow> Inl e
         | Inr objs5 \<Rightarrow> Inr (i4 + 1, x + i4 + 1, objs5))
      else Inr (i4, x + i4, o4)) = Inr (i5, x + i5, o5)"
    and i5: "i4 \<le> i5" "i5 \<le> cols r" and k5: "keeps (x + i4) o4 o5"
    by blast
  have p5: "pool_ok o5" and l5: "length o5 = length objs" using k5 l4 by (simp_all add: keeps_def)
  have "2 * (x + i5 + max 0 (cols r - i5)) \<le> int (length o5)" "0 \<le> x + i5"
    using assms(3,6) i4 i5 dw by (simp_all add: l5)
  from paint_blanks_paints [OF p5 this(2,1), of TextGridStyleDefault] obtain o6 where
    e6: "paint_blanks (cols r) TextGridStyleDefault i5 (x + i5) o5 =
      Inr (max i5 (cols r), x + i5 + max 0 (cols r - i5), o6)"
    and k6: "keeps (x + i5) o5 o6"
    by blast
  have m6: "x + i5 + max 0 (cols r - i5) = x + cols r" using i5 by simp
  have E: "refreshGrid_row t r rowIndex line row x objs = Inr (x + cols r, o6)"
    unfolding refreshGrid_row_def cs_def [symmetric] w_def [symmetric] W_def [symmetric]
    by (simp only: assms(1) if_True sum.case prod.case e1 e2 [unfolded m2] e3 e4 [unfolded x4]
        e5 [unfolded nl_def] e6 [unfolded m6])
  have k36: "keeps (x + w + 1) o3 o6"
    using keeps_trans [OF keeps_trans [OF k4 k5] k6] i4 i5 by simp
  have K: "keeps x objs o6"
    using keeps_trans [OF keeps_trans [OF keeps_trans [OF k1 k2] k3] k36] dw by simp
  have V: "cell_view o6 (nat x + j) = Some (rune_text (g ! j), style_fg W, style_bg W)"
    if "j < length g" for j
  proof -
    have jw: "int j \<le> w" using that lg dw by linarith
    have a: "cell_view o6 (nat x + j) = cell_view o3 (nat x + j)"
      using k36 assms(3) jw by (intro keeps_view [where x = "x + w + 1"]) simp_all
    consider "j < d" | "d \<le> j" "int j < w" | "int j = w" using jw by linarith
    then show ?thesis
    proof cases
      case 1
      have "cell_view o3 (nat x + j) = cell_view o2 (nat x + j)"
        using k3 assms(3) 1 dw by (intro keeps_view [where x = "x + w"]) simp_all
      also have "\<dots> = cell_view o1 (nat x + j)"
        using k2 assms(3) 1 by (intro keeps_view [where x = "x + int d"]) simp_all
      finally show ?thesis using a v1 [OF 1] 1 by (simp add: g nth_append d_def)
    next
      case 2
      have "cell_view o3 (nat x + j) = cell_view o2 (nat x + j)"
        using k3 assms(3) 2 by (intro keeps_view [where x = "x + w"]) simp_all
      moreover have "nat x + j = nat (x + int d) + (j - d)" using assms(3) 2 by simp
      moreover have "j - d < nat (w - int d)" using 2 by linarith
      ultimately have "cell_view o3 (nat x + j) = Some (rune_text 32, style_fg W, style_bg W)"
        using v2 [of "j - d"] by simp
      moreover have "g ! j = 32" using 2 by (simp add: g nth_append d_def) 
      ultimately show ?thesis using a by simp
    next
      case 3
      then have "nat x + j = nat (x + w)" using assms(3) by simp
      moreover have "g ! j = 124"
      proof -
        have "g = (cs @ replicate (nat (w - int d)) 32) @ [124]" by (simp add: g)
        moreover have "length (cs @ replicate (nat (w - int d)) 32) = j"
          using 3 dw by (simp add: ld)
        ultimately show ?thesis by (metis nth_append_length)
      qed
      ultimately show ?thesis using a v3 by simp
    qed
  qed
  show ?thesis using E K V unfolding g_def w_def W_def by blast
qed

lemma refreshGrid_rows_gutter:
  assumes "LineNumbers t" "pool_ok objs" "0 \<le> x" "lineCountWidth r + 1 \<le> cols r"
    "\<And>l. line \<le> l \<Longrightarrow> l \<le> rows r \<Longrightarrow>
      int (length (range_runes (Sprintf_d l))) \<le> lineCountWidth r"
    "line = rowIndex + 1"
    "n = nat (min (int (length rws)) (rows r - rowIndex))"
    "2 * (x + cols r * int n) \<le> int (length objs)"
  shows "\<exists>objs'. refreshGrid_rows t r rws rowIndex line x objs = Inr (x + cols r * int n, objs') \<and>
      keeps x objs objs' \<and>
      (\<forall>m < n. \<forall>j < length (gutter_runes (line + int m) (lineCountWidth r)).
         cell_view objs' (nat x + m * nat (cols r) + j) =
           Some (rune_text (gutter_runes (line + int m) (lineCountWidth r) ! j),
                 style_fg TextGridStyleWhitespace, style_bg TextGridStyleWhitespace))"
  using assms(2,3,5,6,7,8)
proof (induction rws arbitrary: rowIndex line x objs n)
  case Nil
  then show ?case by (simp add: keeps_refl)
next
  case (Cons row rws)
  define w where "w = lineCountWidth r"
  have w0: "0 \<le> w" by (simp add: w_def lineCountWidth_def)
  have c0: "0 < cols r" using assms(4) w0 by (simp add: w_def)
  show ?case
  proof (cases "rows r \<le> rowIndex")
    case True
    then have "n = 0" using Cons.prems(5) by simp
    then show ?thesis using True Cons.prems(1) by (simp add: keeps_refl)
  next
    case False
    define n' where "n' = nat (min (int (length rws)) (rows r - (rowIndex + 1)))"
    have n: "n = Suc n'" using False Cons.prems(5) by (simp add: n'_def)
    have room: "2 * (x + cols r) \<le> int (length objs)"
    proof -
      have "cols r * 1 \<le> cols r * int n" using c0 n by (intro mult_left_mono) simp_all
      then show ?thesis using Cons.prems(6) by simp
    qed
    have fit: "int (length (range_runes (Sprintf_d line))) \<le> lineCountWidth r"
      using False Cons.prems(4) by (intro Cons.prems(3)) simp_all
    from refreshGrid_row_gutter [OF assms(1) Cons.prems(1,2) fit assms(4) room, of rowIndex row]
    obtain o1 where
      e1: "refreshGrid_row t r rowIndex line row x objs = Inr (x + cols r, o1)"
      and k1: "keeps x objs o1"
      and v1: "\<And>j. j < length (gutter_runes line w) \<Longrightarrow> cell_view o1 (nat x + j) =
         Some (rune_text (gutter_runes line w ! j),
               style_fg TextGridStyleWhitespace, style_bg TextGridStyleWhitespace)"
      unfolding w_def by blast
    have p1: "pool_ok o1" and l1: "length o1 = length objs" using k1 by (simp_all add: keeps_def)
    have x1: "x + cols r + cols r * int n' = x + cols r * int n"
      by (simp add: n distrib_left)
    have "\<exists>objs'. refreshGrid_rows t r rws (rowIndex + 1) (line + 1) (x + cols r) o1 =
          Inr (x + cols r + cols r * int n', objs') \<and>
        keeps (x + cols r) o1 objs' \<and>
        (\<forall>m < n'. \<forall>j < length (gutter_runes (line + 1 + int m) (lineCountWidth r)).
           cell_view objs' (nat (x + cols r) + m * nat (cols r) + j) =
             Some (rune_text (gutter_runes (line + 1 + int m) (lineCountWidth r) ! j),
                   style_fg TextGridStyleWhitespace, style_bg TextGridStyleWhitespace))"
    proof (rule Cons.IH [OF p1])
      show "0 \<le> x + cols r" using Cons.prems(2) c0 by simp
      show "int (length (range_runes (Sprintf_d l))) \<le> lineCountWidth r"
        if "line + 1 \<le> l" "l \<le> rows r" for l
        using that by (intro Cons.prems(3)) simp_all
      show "line + 1 = rowIndex + 1 + 1" using Cons.prems(4) by simp
      show "n' = nat (min (int (length rws)) (rows r - (rowIndex + 1)))" by (rule n'_def)
      show "2 * (x + cols r + cols r * int n') \<le> int (length o1)"
        unfolding x1 l1 by (rule Cons.prems(6))
    qed
    then obtain objs' where
      e2: "refreshGrid_rows t r rws (rowIndex + 1) (line + 1) (x + cols r) o1 =
          Inr (x + cols r * int n, objs')"
      and k2: "keeps (x + cols r) o1 objs'"
      and v2: "\<And>m j. m < n' \<Longrightarrow> j < length (gutter_runes (line + 1 + int m) w) \<Longrightarrow>
           cell_view objs' (nat (x + cols r) + m * nat (cols r) + j) =
             Some (rune_text (gutter_runes (line + 1 + int m) w ! j),
                   style_fg TextGridStyleWhitespace, style_bg TextGridStyleWhitespace)"
      unfolding x1 w_def by blast
    have E: "refreshGrid_rows t r (row # rws) rowIndex line x objs = Inr (x + cols r * int n, objs')"
      using False e1 e2 by simp
    have K: "keeps x objs objs'" using k1 k2 by (rule keeps_trans) (use c0 in simp)
    have lg: "length (gutter_runes l w) = nat w + 1"
      if "int (length (range_runes (Sprintf_d l))) \<le> w" for l
      using that by (simp add: gutter_runes_def)
    have V: "cell_view objs' (nat x + m * nat (cols r) + j) =
        Some (rune_text (gutter_runes (line + int m) w ! j),
              style_fg TextGridStyleWhitespace, style_bg TextGridStyleWhitespace)"
      if "m < n" "j < length (gutter_runes (line + int m) w)" for m j
    proof (cases m)
      case 0
      have "int j < cols r" using that(2) lg [of line] fit assms(4) 0 by (simp add: w_def)
      then have "cell_view objs' (nat x + j) = cell_view o1 (nat x + j)"
        using k2 Cons.prems(2) by (intro keeps_view [where x = "x + cols r"]) simp_all
      then show ?thesis using v1 [of j] that(2) 0 by simp
    next
      case (Suc m')
      have a: "nat x + m * nat (cols r) + j = nat (x + cols r) + m' * nat (cols r) + j"
        using Cons.prems(2) c0 Suc by (simp add: nat_add_distrib)
      have b: "line + int m = line + 1 + int m'" using Suc by simp
      have "m' < n'" using that(1) Suc n by simp
      moreover have "j < length (gutter_runes (line + 1 + int m') w)" using that(2) unfolding b .
      ultimately show ?thesis unfolding a b by (rule v2)
    qed
    show ?thesis using E K V unfolding w_def by blast
  qed
qed

lemma refreshGrid_blank_keeps:
  assumes "pool_ok objs" "0 \<le> x"
  shows "\<exists>objs'. refreshGrid_blank x objs = Inr objs' \<and> keeps x objs objs'"
  using assms
proof (induction "nat (int (length objs) div 2 - x)" arbitrary: x objs)
  case 0
  then have "\<not> x < int (length objs) div 2" by simp
  then show ?case using 0 by (subst refreshGrid_blank.simps) (simp add: keeps_refl)
next
  case (Suc m)
  then have lt: "x < int (length objs) div 2" by linarith
  then have "2 * x + 1 < int (length objs)" by linarith
  from setCellRune_keeps [OF Suc.prems this, of 32 TextGridStyleDefault] obtain o1 where
    s: "setCellRune 32 x TextGridStyleDefault objs = Inr o1" and k1: "keeps x objs o1" by blast
  have p1: "pool_ok o1" and l1: "length o1 = length objs" using k1 by (simp_all add: keeps_def)
  have "\<exists>objs'. refreshGrid_blank (x + 1) o1 = Inr objs' \<and> keeps (x + 1) o1 objs'"
    using Suc.hyps(2) Suc.prems(2) by (intro Suc.hyps(1) p1) (simp_all add: l1)
  then obtain objs' where r: "refreshGrid_blank (x + 1) o1 = Inr objs'"
    and k2: "keeps (x + 1) o1 objs'" by blast
  have "refreshGrid_blank x objs = Inr objs'"
    using lt s r by (subst refreshGrid_blank.simps) simp
  moreover have "keeps x objs objs'" using k1 k2 by (rule keeps_trans) simp
  ultimately show ?case by blast
qed

lemma ensureGrid_loop_pool_ok:
  "pool_ok (objects r) \<Longrightarrow> pool_ok (objects (ensureGrid_loop i n r))"
proof (induction i n r rule: ensureGrid_loop.induct)
  case (1 i n r)
  show ?case
  proof (cases "i < n")
    case True
    have "pool_ok (objects (appendTextCell r 32))"
      using "1.prems" by (simp add: appendTextCell_def pool_ok_append)
    then show ?thesis using "1.IH" [OF True] True by (subst ensureGrid_loop.simps) simp
  next
    case False
    then show ?thesis using "1.prems" by (subst ensureGrid_loop.simps) simp
  qed
qed

lemma ensureGrid_pool_ok: "pool_ok (objects r) \<Longrightarrow> pool_ok (objects (ensureGrid r))"
  by (simp add: ensureGrid_def Let_def ensureGrid_loop_pool_ok)

text \<open>The digits of a line number are ASCII, and not more than those of a larger number.\<close>

lemma digits_ascii: "c \<in> set (digits n) \<Longrightarrow> \<exists>m :: nat. m < 10 \<and> c = char_of (48 + m)"
proof (induction n rule: digits.induct)
  case (1 n)
  show ?case
  proof (cases "n < 10")
    case True
    then show ?thesis using "1.prems" by (subst (asm) digits.simps) auto
  next
    case False
    then have "c \<in> set (digits (n div 10)) \<or> c = char_of (48 + n mod 10)"
      using "1.prems" by (subst (asm) digits.simps) auto
    then show ?thesis using "1.IH" [OF False] by (auto intro: exI [of _ "n mod 10"])
  qed
qed

lemma digits_not_Nil: "digits n \<noteq> []"
  by (subst digits.simps) simp

lemma length_digits_mono: "a \<le> b \<Longrightarrow> length (digits a) \<le> length (digits b)"
proof (induction b arbitrary: a rule: digits.induct)
  case (1 b)
  show ?case
  proof (cases "a < 10")
    case True
    then have "length (digits a) = 1" by (subst digits.simps) simp
    moreover have "1 \<le> length (digits b)" using digits_not_Nil [of b] by (cases "digits b") simp_all
    ultimately show ?thesis by simp
  next
    case False
    then have b: "\<not> b < 10" using "1.prems" by simp
    have "a div 10 \<le> b div 10" using "1.prems" by (rule div_le_mono)
    then have "length (digits (a div 10)) \<le> length (digits (b div 10))" by (rule "1.IH" [OF b])
    then show ?thesis using False b by (subst (1 2) digits.simps) simp
  qed
qed

lemma range_runes_ascii:
  "\<forall>c \<in> set s. (of_char c :: nat) < 128 \<Longrightarrow> range_runes s = map (\<lambda>c. int (of_char c)) s"
proof (induction s)
  case Nil
  then show ?case by simp
next
  case (Cons c s)
  then have "decode_rune (c # s) = (int (of_char c), 1)" by (simp add: Let_def)
  then show ?case using Cons by (simp add: range_runes_Cons)
qed

lemma digit_char: "m < 10 \<Longrightarrow> (of_char (char_of (48 + m :: nat)) :: nat) = 48 + m"
  by (simp add: of_char_of_nat)

lemma range_runes_digits: "range_runes (digits n) = map (\<lambda>c. int (of_char c)) (digits n)"
proof (rule range_runes_ascii, rule ballI)
  fix c assume "c \<in> set (digits n)"
  then obtain m :: nat where "m < 10" "c = char_of (48 + m)" using digits_ascii by blast
  then show "(of_char c :: nat) < 128" using digit_char [of m] by simp
qed

lemma rune_text_digit: "c \<in> set (digits n) \<Longrightarrow> rune_text (int (of_char c)) = [c]"
proof -
  assume "c \<in> set (digits n)"
  then obtain m :: nat where m: "m < 10" "c = char_of (48 + m)" using digits_ascii by blast
  have o: "(of_char c :: nat) = 48 + m" using m digit_char by simp
  have "encode_rune (int (of_char c)) = [char_of (nat (int (of_char c :: nat)))]"
    using o m(1) by (intro encode_rune_1) simp_all
  then have "encode_rune (int (of_char c)) = [c]" by simp
  then show ?thesis using o by (simp add: rune_text_def)
qed

lemma rune_text_space: "rune_text 32 = [CHR 0x20]"
proof -
  have "char_of (of_char (CHR 0x20) :: nat) = CHR 0x20" by (rule char_of_char)
  then have "char_of (32 :: nat) = CHR 0x20" by simp
  then show ?thesis by (simp add: rune_text_def encode_rune_def)
qed

lemma rune_text_bar: "rune_text 124 = [CHR 0x7C]"
proof -
  have "char_of (of_char (CHR 0x7C) :: nat) = CHR 0x7C" by (rule char_of_char)
  then have "char_of (124 :: nat) = CHR 0x7C" by simp
  then show ?thesis by (simp add: rune_text_def encode_rune_def)
qed

lemma gutter_runes_text:
  assumes "0 \<le> line"
  shows "map rune_text (gutter_runes line w) = map (\<lambda>c. [c]) (gutter_text line w)"
proof -
  have s: "Sprintf_d line = digits (nat line)" using assms by (simp add: Sprintf_d_def)
  have "map rune_text (map (\<lambda>c. int (of_char c)) (digits (nat line))) =
      map (\<lambda>c. [c]) (digits (nat line))"
    by (simp add: rune_text_digit)
  then show ?thesis
    by (simp add: gutter_runes_def gutter_text_def s range_runes_digits rune_text_space rune_text_bar)
qed

lemma gutter_text_nth:
  assumes "0 \<le> line" "j < length (gutter_runes line w)"
  shows "rune_text (gutter_runes line w ! j) = [gutter_text line w ! j]"
    and "length (gutter_text line w) = length (gutter_runes line w)"
proof -
  have l: "length (gutter_text line w) = length (gutter_runes line w)"
    using arg_cong [OF gutter_runes_text [OF assms(1), of w], of length] by simp
  have "map rune_text (gutter_runes line w) ! j = map (\<lambda>c. [c]) (gutter_text line w) ! j"
    using gutter_runes_text [OF assms(1)] by simp
  then show "rune_text (gutter_runes line w ! j) = [gutter_text line w ! j]"
    using assms(2) l by simp
  show "length (gutter_text line w) = length (gutter_runes line w)" by (rule l)
qed

lemma whitespace_colors:
  "style_fg TextGridStyleWhitespace = ThemeButtonColor"
  "style_bg TextGridStyleWhitespace = Transparent"
  by (simp_all add: style_fg_def style_bg_def TextGridStyleWhitespace_def TextColor_def
      BackgroundColor_def)

lemma length_gutter_runes:
  "int (length (range_runes (Sprintf_d line))) \<le> w \<Longrightarrow> length (gutter_runes line w) = nat w + 1"
  by (simp add: gutter_runes_def)

lemma lineCountWidth_digits:
  assumes "0 \<le> rows r" "rows r < MaxInt"
  shows "lineCountWidth r = int (length (Sprintf_d (rows r + 1)))"
    and "lineCountWidth r = int (length (digits (nat (rows r + 1))))"
proof -
  have "int64 (rows r + 1) = rows r + 1"
    using assms by (intro int64_id) (simp_all add: MinInt_def)
  then show "lineCountWidth r = int (length (Sprintf_d (rows r + 1)))"
    by (simp add: lineCountWidth_def)
  then show "lineCountWidth r = int (length (digits (nat (rows r + 1))))"
    using assms(1) by (simp add: Sprintf_d_def)
qed

lemma line_fits:
  assumes "0 \<le> rows r" "rows r < MaxInt" "0 < l" "l \<le> rows r"
  shows "int (length (range_runes (Sprintf_d l))) \<le> lineCountWidth r"
proof -
  have "length (range_runes (Sprintf_d l)) = length (digits (nat l))"
    using assms(3) by (simp add: Sprintf_d_def range_runes_digits)
  moreover have "length (digits (nat l)) \<le> length (digits (nat (rows r + 1)))"
    using assms by (intro length_digits_mono) simp
  ultimately show ?thesis using lineCountWidth_digits(2) [OF assms(1,2)] by simp
qed

text \<open>
  Claim C6, as the code has it. Line numbers are on, the pool is well formed, the renderer has
  a column more than the width of the gutter, and \<open>2 * cols * rows\<close> is an \<open>int\<close>. The width of the
  gutter is the number of digits of \<open>rows + 1\<close>, for the rows of the renderer: 2 when there
  are 10. \<open>Refresh\<close> returns, and for a row \<open>k\<close> of the buffer that is below the rows of the
  renderer, the cells from \<open>k * cols\<close> on show the gutter of the line \<open>k + 1\<close> in the colours of
  the whitespace style: the digits of the line number, then spaces up to the width, then a
  bar. The line number is left-justified: the gutter of line 5 in a width of 2 is \<open>5\<close>, a
  space and the bar.
\<close>

theorem gutter_left_justified:
  assumes "LineNumbers t" and "pool_ok (objects r)"
    and "lineCountWidth r + 1 \<le> cols r" and "2 * cols r * rows r \<le> MaxInt"
    and "k < length (Content t)" and "int k < rows r"
  shows "lineCountWidth r = int (length (Sprintf_d (rows r + 1))) \<and>
     (rows r = 10 \<longrightarrow> lineCountWidth r = 2) \<and> gutter_text 5 2 = ''5 |'' \<and>
     length (gutter_text (int k + 1) (lineCountWidth r)) = nat (lineCountWidth r) + 1 \<and>
     (\<exists>r'. Refresh t r = Inr r' \<and>
        (\<forall>j \<le> nat (lineCountWidth r). cell_view (objects r') (k * nat (cols r) + j) =
           Some ([gutter_text (int k + 1) (lineCountWidth r) ! j], ThemeButtonColor, Transparent)))"
proof -
  define w where "w = lineCountWidth r"
  define c where "c = cols r"
  have w0: "0 \<le> w" by (simp add: w_def lineCountWidth_def)
  have r1: "1 \<le> rows r" using assms(6) by simp
  have w1: "1 \<le> w"
  proof -
    have "Sprintf_d (int64 (rows r + 1)) \<noteq> []" by (simp add: Sprintf_d_def digits_not_Nil)
    then show ?thesis by (cases "Sprintf_d (int64 (rows r + 1))") (simp_all add: w_def lineCountWidth_def)
  qed
  have c2: "2 \<le> c" using assms(3) w1 by (simp add: w_def c_def)
  have cr: "c * 1 \<le> c * rows r" using c2 r1 by (intro mult_left_mono) simp_all
  have rM: "rows r < MaxInt"
  proof -
    have a: "2 * rows r \<le> c * rows r" using c2 r1 by (intro mult_right_mono) simp_all
    have b: "2 * (c * rows r) \<le> MaxInt" using assms(4) by (simp add: c_def mult.assoc)
    show ?thesis using a b r1 by linarith
  qed
  have r0: "0 \<le> rows r" using r1 by simp
  note lw = lineCountWidth_digits [OF r0 rM]
  have W1: "lineCountWidth r = int (length (Sprintf_d (rows r + 1)))" by (rule lw(1))
  have d11: "digits 11 = [char_of (49 :: nat), char_of (49 :: nat)]"
    by (subst digits.simps, simp, subst digits.simps, simp)
  have W2: "rows r = 10 \<longrightarrow> lineCountWidth r = 2" using lw(2) by (auto simp: d11)
  have W3: "gutter_text 5 2 = ''5 |''"
  proof -
    have "char_of (of_char (CHR ''5'') :: nat) = CHR ''5''" by (rule char_of_char)
    then have "char_of (53 :: nat) = CHR ''5''" by simp
    then show ?thesis by (simp add: gutter_text_def Sprintf_d_def digits.simps)
  qed
  define r1 where "r1 = ensureGrid r"
  have f1: "cols r1 = c" "rows r1 = rows r" "lineCountWidth r1 = w"
    by (simp_all add: r1_def ensureGrid_fields c_def w_def lineCountWidth_def)
  have p1: "pool_ok (objects r1)" unfolding r1_def using assms(2) by (rule ensureGrid_pool_ok)
  have "0 \<le> c * rows r" using c2 r1 by simp
  then have "MinInt \<le> 2 * cols r * rows r"
    by (simp add: MinInt_def c_def mult.assoc)
  then have "int64 (int64 (cols r * rows r) * 2) = 2 * cols r * rows r"
    using assms(4) by (intro cellCount2_exact)
  then have l1: "2 * c * rows r \<le> int (length (objects r1))"
    using ensureGrid_length [of r] by (simp add: r1_def c_def)
  define n where "n = nat (min (int (length (Content t))) (rows r1 - 0))"
  have kn: "k < n" using assms(5,6) by (simp add: n_def f1)
  have nr: "int n \<le> rows r" using r0 by (simp add: n_def f1)
  have "c * int n \<le> c * rows r" using nr c2 by (intro mult_left_mono) simp_all
  then have room: "2 * (0 + cols r1 * int n) \<le> int (length (objects r1))"
    using l1 by (simp add: f1)
  have fits: "int (length (range_runes (Sprintf_d l))) \<le> lineCountWidth r1"
    if "1 \<le> l" "l \<le> rows r1" for l
    unfolding f1 w_def using that by (intro line_fits [OF r0 rM]) (simp_all add: f1)
  have "\<exists>objs'. refreshGrid_rows t r1 (Content t) 0 1 0 (objects r1) =
        Inr (0 + cols r1 * int n, objs') \<and>
      keeps 0 (objects r1) objs' \<and>
      (\<forall>m < n. \<forall>j < length (gutter_runes (1 + int m) (lineCountWidth r1)).
         cell_view objs' (nat 0 + m * nat (cols r1) + j) =
           Some (rune_text (gutter_runes (1 + int m) (lineCountWidth r1) ! j),
                 style_fg TextGridStyleWhitespace, style_bg TextGridStyleWhitespace))"
    using assms(1) p1 _ _ fits _ n_def room
    by (rule refreshGrid_rows_gutter) (simp_all add: f1 assms(3) [unfolded w_def [symmetric] c_def [symmetric]])
  then obtain o2 where
    e2: "refreshGrid_rows t r1 (Content t) 0 1 0 (objects r1) = Inr (c * int n, o2)"
    and k2: "keeps 0 (objects r1) o2"
    and v2: "\<And>m j. m < n \<Longrightarrow> j < length (gutter_runes (1 + int m) w) \<Longrightarrow>
         cell_view o2 (m * nat c + j) =
           Some (rune_text (gutter_runes (1 + int m) w ! j), ThemeButtonColor, Transparent)"
    unfolding f1 whitespace_colors by auto
  have p2: "pool_ok o2" using k2 by (simp add: keeps_def)
  have "0 \<le> c * int n" using c2 by simp
  from refreshGrid_blank_keeps [OF p2 this] obtain o3 where
    e3: "refreshGrid_blank (c * int n) o2 = Inr o3" and k3: "keeps (c * int n) o2 o3" by blast
  have E: "Refresh t r = Inr (r1\<lparr>objects := o3\<rparr>)"
    by (simp add: Refresh_def refreshGrid_def r1_def [symmetric] e2 e3)
  have kf: "int (length (range_runes (Sprintf_d (1 + int k)))) \<le> w"
    using fits [of "1 + int k"] assms(6) by (simp add: f1)
  have lg: "length (gutter_runes (1 + int k) w) = nat w + 1"
    using kf by (rule length_gutter_runes)
  have W4: "length (gutter_text (int k + 1) w) = nat w + 1"
    using gutter_text_nth(2) [of "1 + int k" 0 w] lg by (simp add: add.commute)
  have V: "cell_view o3 (k * nat c + j) = Some ([gutter_text (int k + 1) w ! j], ThemeButtonColor, Transparent)"
    if "j \<le> nat w" for j
  proof -
    have j: "j < length (gutter_runes (1 + int k) w)" using that lg by simp
    have "int j < c" using that assms(3) w0 by (simp add: w_def c_def)
    then have "int (k * nat c + j) < int (Suc k) * c" using c2 by (simp add: distrib_right)
    moreover have "int (Suc k) * c \<le> c * int n"
      using kn c2 by (simp add: mult.commute [of c])
    ultimately have "int (k * nat c + j) < c * int n" by linarith
    then have "cell_view o3 (k * nat c + j) = cell_view o2 (k * nat c + j)"
      using k3 by (intro keeps_view [where x = "c * int n"])
    then show ?thesis
      using v2 [OF kn j] gutter_text_nth(1) [of "1 + int k" j w] j by (simp add: add.commute)
  qed
  show ?thesis
    using W1 W2 W3 W4 E V unfolding w_def [symmetric] c_def [symmetric] by simp
qed

text \<open>
  The grid of ten empty rows in a new renderer with cells of 10 by 10 pixels, laid out in 30
  by 0 pixels: the renderer has 3 columns and 10 rows, the gutter has a width of 2, and the
  cells 12, 13 and 14, the first of the fifth row, show \<open>5\<close>, a space and the bar.
\<close>

lemma Layout_numbered_grid:
  "map_sum id (\<lambda>r. (cols r, rows r, pool_ok (objects r)))
     (Layout numbered_grid (CreateRenderer (10, 10)) (30, 0)) = Inr (3, 10, True)"
  by code_simp

lemma numbered_grid_rows: "LineNumbers numbered_grid" "length (Content numbered_grid) = 10"
  by code_simp+

theorem gutter_left_justified_witness:
  "LineNumbers numbered_grid \<and> length (Content numbered_grid) = 10 \<and>
   (\<exists>r r'. Layout numbered_grid (CreateRenderer (10, 10)) (30, 0) = Inr r \<and>
      pool_ok (objects r) \<and> cols r = 3 \<and> rows r = 10 \<and> lineCountWidth r = 2 \<and>
      Refresh numbered_grid r = Inr r' \<and>
      cell_view (objects r') 12 = Some (''5'', ThemeButtonColor, Transparent) \<and>
      cell_view (objects r') 13 = Some ('' '', ThemeButtonColor, Transparent) \<and>
      cell_view (objects r') 14 = Some (''|'', ThemeButtonColor, Transparent))"
proof -
  obtain r where r: "Layout numbered_grid (CreateRenderer (10, 10)) (30, 0) = Inr r"
    "cols r = 3" "rows r = 10" "pool_ok (objects r)"
    using Layout_numbered_grid
    by (cases "Layout numbered_grid (CreateRenderer (10, 10)) (30, 0)") auto
  have w: "lineCountWidth r = 2"
    by (simp add: lineCountWidth_def r(3) int64_def Sprintf_d_def digits.simps)
  have h: "lineCountWidth r + 1 \<le> cols r" "2 * cols r * rows r \<le> MaxInt"
    "4 < length (Content numbered_grid)" "int 4 < rows r"
    by (simp_all add: w r numbered_grid_rows MaxInt_def)
  note T = gutter_left_justified [OF numbered_grid_rows(1) r(4) h]
  from T obtain r' where r': "Refresh numbered_grid r = Inr r'"
    and v: "\<And>j. j \<le> nat (lineCountWidth r) \<Longrightarrow> cell_view (objects r') (4 * nat (cols r) + j) =
      Some ([gutter_text (int 4 + 1) (lineCountWidth r) ! j], ThemeButtonColor, Transparent)"
    by blast
  have g: "gutter_text 5 2 = ''5 |''" using T by blast
  have "cell_view (objects r') 12 = Some (''5'', ThemeButtonColor, Transparent)"
    using v [of 0] by (simp add: g w r)
  moreover have "cell_view (objects r') 13 = Some ('' '', ThemeButtonColor, Transparent)"
    using v [of 1] by (simp add: g w r)
  moreover have "cell_view (objects r') 14 = Some (''|'', ThemeButtonColor, Transparent)"
    using v [of 2] by (simp add: g w r)
  ultimately show ?thesis using r r' w numbered_grid_rows by blast
qed

text \<open>
  The same grid and renderer. After the layout in 30 by 0 pixels and a refresh, the first
  cells of the fifth row show \<open>5\<close>, a space and the bar, and not a space, \<open>5\<close> and the bar. After
  a layout in 0 by 0 pixels the renderer has one column, the gutters run over the rows, and
  the refresh panics at the eleventh cell.
\<close>

theorem gutter_right_justified_counterexample:
  "cells_shown [12, 13, 14]
     (run_passes (CreateRenderer (10, 10))
        [(numbered_grid, LayoutPass (30, 0)), (numbered_grid, RefreshPass)]) =
     Inr [Some (''5'', ThemeButtonColor, Transparent), Some ('' '', ThemeButtonColor, Transparent),
          Some (''|'', ThemeButtonColor, Transparent)] \<and>
   cells_shown [12, 13, 14]
     (run_passes (CreateRenderer (10, 10))
        [(numbered_grid, LayoutPass (30, 0)), (numbered_grid, RefreshPass)]) \<noteq>
     Inr [Some ('' '', ThemeButtonColor, Transparent), Some (''5'', ThemeButtonColor, Transparent),
          Some (''|'', ThemeButtonColor, Transparent)] \<and>
   run_passes (CreateRenderer (10, 10))
     [(numbered_grid, LayoutPass (0, 0)), (numbered_grid, RefreshPass)] = Inl IndexOutOfRange"
  by code_simp

end
